theory Spec2Isabelle
  imports Main "HOL-Library.AList"
begin

section \<open>Data model of the game engine\<close>

text \<open>
  The server keeps one \<open>gameState\<close> object per started room and mutates it in place.
  Cell objects are the only objects of a game state that can be shared:
  \<^verbatim>\<open>Array(players.length).fill({ stage: 0, isActive: false, bullets: 0 })\<close> puts one
  and the same object into every slot of a player's \<open>cells\<close> array. Cells therefore
  live in an explicit store (\<open>heap\<close>, a list indexed by address) and a \<open>cells\<close> array
  is a list of addresses. Player objects, their \<open>stats\<close> objects and their \<open>cells\<close>
  arrays are created once per roster index by the \<open>map\<close> callback, so they are held by
  value in the \<open>players\<close> list and updated by index.
\<close>

record cell =
  stage :: int
  isActive :: bool
  bullets :: int

record player_stats =
  shotsFired :: int
  eliminations :: int
  timesTargeted :: int

type_synonym addr = nat

record game_player =
  id_g :: string
  username :: string
  color :: string
  eliminated :: bool
  firstMove :: bool
  cells :: "addr list"
  stats :: player_stats

text \<open>
  A log entry is a JavaScript object with a \<open>type\<close> and a few further properties; a
  property that the object literal does not set reads as \<open>undefined\<close>, here \<open>None\<close>.
\<close>

record log_entry =
  type_l :: string
  player :: "string option"
  message :: "string option"
  cell_l :: "int option"
  shooter :: "string option"
  target :: "string option"

record game_state =
  currentPlayer :: nat
  players :: "game_player list"
  lastRoll :: "int option"
  gameLog :: "log_entry list"
  heap :: "cell list"

record lobby_player =
  id_l :: string
  username_l :: string
  ready :: bool
  isLeader :: bool
  color_l :: string

text \<open>The payload of a game action. An action reads only its own properties.\<close>

record action_data =
  value_d :: int
  targetPlayer :: int
  targetCell :: int
  emote :: string

record elimination =
  eliminator :: "string option"
  eliminated_h :: "string option"

record history =
  winner :: string
  eliminations_h :: "elimination list"
  playerStats :: "(string \<times> player_stats) list"

record action_result =
  gameState_r :: game_state
  gameEnded :: bool
  history_r :: "history option"

text \<open>
  Reading a property of \<open>undefined\<close> throws a \<open>TypeError\<close>, which aborts the handler.
  \<open>SparseWrite\<close> marks the one place where the list model stops: an assignment to
  an index outside the target's \<open>cells\<close> array, which would make the array sparse. It
  needs a target whose array is shorter than the actor's; \<open>initializeGameState\<close> gives
  every player an array of the same length and no action changes a length.
\<close>

datatype failure = TypeError | SparseWrite

section \<open>Helpers for JavaScript arrays and objects\<close>

text \<open>\<open>xs[i]\<close> for an integer \<open>i\<close>: \<open>undefined\<close> outside \<open>0 .. length - 1\<close>.\<close>

definition lookup :: "'a list \<Rightarrow> int \<Rightarrow> 'a option" where
  "lookup xs i = (if 0 \<le> i \<and> i < int (length xs) then Some (xs ! nat i) else None)"

definition PLAYER_COLORS :: "string list" where
  "PLAYER_COLORS = [''#3B82F6'', ''#EF4444'', ''#10B981'', ''#F59E0B'', ''#8B5CF6'', ''#EC4899'']"

text \<open>An object literal with only its \<open>type\<close> set; the other properties are added by update.\<close>

definition entry :: "string \<Rightarrow> log_entry" where
  "entry t = \<lparr>type_l = t, player = None, message = None, cell_l = None,
              shooter = None, target = None\<rparr>"

definition freshCell :: cell where
  "freshCell = \<lparr>stage = 0, isActive = False, bullets = 0\<rparr>"

section \<open>initializeGameState\<close>

text \<open>
  Player \<open>index\<close> gets its own fill object, stored at address \<open>index\<close>, in all
  \<open>players.length\<close> slots of its array.
\<close>

definition initializeGameState :: "lobby_player list \<Rightarrow> game_state" where
  "initializeGameState ps =
     \<lparr>currentPlayer = 0,
      players = map (\<lambda>(p, index).
          \<lparr>id_g = id_l p,
           username = username_l p,
           color = PLAYER_COLORS ! (index mod length PLAYER_COLORS),
           eliminated = False,
           firstMove = True,
           cells = replicate (length ps) index,
           stats = \<lparr>shotsFired = 0, eliminations = 0, timesTargeted = 0\<rparr>\<rparr>)
        (zip ps [0 ..< length ps]),
      lastRoll = None,
      gameLog = [],
      heap = replicate (length ps) freshCell\<rparr>"

section \<open>processGameAction\<close>

subsection \<open>The three cases of the switch\<close>

text \<open>
  The if-chain on \<open>cell = currentPlayer.cells[cellIndex]\<close>, the cell being the object at
  address \<open>a\<close>. \<open>cur1\<close> is the current player after the first-move test, \<open>gs1\<close> the
  state after the assignment to \<open>lastRoll\<close>.
\<close>

definition roll_cell :: "game_state \<Rightarrow> nat \<Rightarrow> game_player \<Rightarrow> int \<Rightarrow> addr \<Rightarrow> game_state" where
  "roll_cell gs1 cp cur1 cellIndex a =
     (let c = heap gs1 ! a in
      if \<not> isActive c then
        gs1\<lparr>players := (players gs1)[cp :=
               cur1\<lparr>cells := (cells cur1)[nat cellIndex := length (heap gs1)]\<rparr>],
            heap := heap gs1 @ [\<lparr>stage = 1, isActive = True, bullets = 0\<rparr>],
            gameLog := gameLog gs1 @
              [(entry ''activate'')\<lparr>player := Some (username cur1),
                 cell_l := Some (cellIndex + 1)\<rparr>]\<rparr>
      else if stage c < 6 then
        (let c1 = c\<lparr>stage := stage c + 1\<rparr> in
         if stage c1 = 6 then
           gs1\<lparr>players := (players gs1)[cp := cur1],
               heap := (heap gs1)[a := c1\<lparr>bullets := 5\<rparr>],
               gameLog := gameLog gs1 @
                 [(entry ''maxLevel'')\<lparr>player := Some (username cur1),
                    cell_l := Some (cellIndex + 1)\<rparr>]\<rparr>
         else
           gs1\<lparr>players := (players gs1)[cp := cur1],
               heap := (heap gs1)[a := c1]\<rparr>)
      else if bullets c = 0 then
        gs1\<lparr>players := (players gs1)[cp := cur1],
            heap := (heap gs1)[a := c\<lparr>bullets := 5\<rparr>],
            gameLog := gameLog gs1 @
              [(entry ''reload'')\<lparr>player := Some (username cur1),
                 cell_l := Some (cellIndex + 1)\<rparr>]\<rparr>
      else
        gs1\<lparr>players := (players gs1)[cp := cur1]\<rparr>)"

definition case_roll :: "game_state \<Rightarrow> action_data \<Rightarrow> failure + game_state" where
  "case_roll gs d =
     (let v = value_d d;
          gs1 = gs\<lparr>lastRoll := Some v\<rparr>;
          cp = currentPlayer gs1
      in case lookup (players gs1) (int cp) of
           None \<Rightarrow> Inl TypeError
         | Some cur \<Rightarrow>
             if firstMove cur \<and> v \<noteq> 1 then
               Inr (gs1\<lparr>gameLog := gameLog gs1 @
                 [(entry ''firstMove'')\<lparr>player := Some (username cur),
                    message := Some (username cur @ '' needs to roll a 1 to start!'')\<rparr>]\<rparr>)
             else
               (let cur1 = (if firstMove cur \<and> v = 1 then cur\<lparr>firstMove := False\<rparr> else cur);
                    cellIndex = v - 1
                in (case lookup (cells cur1) cellIndex of
                      None \<Rightarrow> Inl TypeError
                    | Some a \<Rightarrow> Inr (roll_cell gs1 cp cur1 cellIndex a))))"

text \<open>\<open>p.cells.every(cell => !cell.isActive)\<close>, the cells read in the store \<open>h\<close>.\<close>

definition allInactive :: "cell list \<Rightarrow> game_player \<Rightarrow> bool" where
  "allInactive h p = (\<forall>x \<in> set (cells p). \<not> isActive (h ! x))"

text \<open>
  The statements of a shot that passed both tests, in the source's order. The object
  literal assigned to \<open>target.cells[targetCell]\<close> is a new object, at the next free
  address; \<open>shooterCell\<close> still names the object read before the assignment, at
  address \<open>a\<close>. \<open>t\<close> is the target's index and \<open>tgt\<close> the target.
\<close>

definition shoot_hit :: "game_state \<Rightarrow> nat \<Rightarrow> addr \<Rightarrow> nat \<Rightarrow> game_player \<Rightarrow> int \<Rightarrow> game_state" where
  "shoot_hit gs cp a t tgt tc =
     (let ps1 = (players gs)[t := tgt\<lparr>cells := (cells tgt)[nat tc := length (heap gs)]\<rparr>];
          h1 = heap gs @ [freshCell];
          h2 = h1[a := (h1 ! a)\<lparr>bullets := bullets (h1 ! a) - 1\<rparr>];
          ps2 = ps1[cp := (ps1 ! cp)\<lparr>stats :=
                  (stats (ps1 ! cp))\<lparr>shotsFired := shotsFired (stats (ps1 ! cp)) + 1\<rparr>\<rparr>];
          ps3 = ps2[t := (ps2 ! t)\<lparr>stats :=
                  (stats (ps2 ! t))\<lparr>timesTargeted := timesTargeted (stats (ps2 ! t)) + 1\<rparr>\<rparr>];
          log1 = gameLog gs @
                  [(entry ''shoot'')\<lparr>shooter := Some (username (ps3 ! cp)),
                     target := Some (username (ps3 ! t)),
                     cell_l := Some (tc + 1)\<rparr>];
          e = allInactive h2 (ps3 ! t);
          ps4 = ps3[t := (ps3 ! t)\<lparr>eliminated := e\<rparr>]
      in if e then
           gs\<lparr>players := ps4[cp := (ps4 ! cp)\<lparr>stats :=
                  (stats (ps4 ! cp))\<lparr>eliminations := eliminations (stats (ps4 ! cp)) + 1\<rparr>\<rparr>],
              heap := h2,
              gameLog := log1 @ [(entry ''eliminate'')\<lparr>player := Some (username (ps4 ! t))\<rparr>]\<rparr>
         else
           gs\<lparr>players := ps4, heap := h2, gameLog := log1\<rparr>)"

definition case_shoot :: "game_state \<Rightarrow> action_data \<Rightarrow> failure + game_state" where
  "case_shoot gs d =
     (let tp = targetPlayer d;
          tc = targetCell d;
          cp = currentPlayer gs
      in if lastRoll gs = Some (tc + 1) then
           (case lookup (players gs) (int cp) of
              None \<Rightarrow> Inl TypeError
            | Some cur \<Rightarrow>
                (case lookup (cells cur) tc of
                   None \<Rightarrow> Inl TypeError
                 | Some a \<Rightarrow>
                     if bullets (heap gs ! a) > 0 then
                       (case lookup (players gs) tp of
                          None \<Rightarrow> Inl TypeError
                        | Some tgt \<Rightarrow>
                            if \<not> nat tc < length (cells tgt) then Inl SparseWrite
                            else Inr (shoot_hit gs cp a (nat tp) tgt tc))
                     else Inr gs))
         else Inr gs)"

definition case_emote :: "game_state \<Rightarrow> action_data \<Rightarrow> failure + game_state" where
  "case_emote gs d =
     (case lookup (players gs) (int (currentPlayer gs)) of
        None \<Rightarrow> Inl TypeError
      | Some cur \<Rightarrow>
          Inr (gs\<lparr>gameLog := gameLog gs @
            [(entry ''emote'')\<lparr>player := Some (username cur),
               message := Some (emote d)\<rparr>]\<rparr>))"

subsection \<open>Game end and turn advance\<close>

text \<open>
  The \<^verbatim>\<open>do ... while\<close> loop of the turn advance. The second conjunct of its
  condition does not change while the loop runs.
\<close>

function nextPlayer :: "game_player list \<Rightarrow> nat \<Rightarrow> nat" where
  "nextPlayer ps cp =
     (let cp1 = (cp + 1) mod length ps
      in if eliminated (ps ! cp1) \<and> (\<exists>p \<in> set ps. \<not> eliminated p)
         then nextPlayer ps cp1 else cp1)"
  by pat_completeness auto

text \<open>
  The loop goes round again only while some player is not eliminated, and each round
  brings the index one step closer to the next such player.
\<close>

lemma nextPlayer_reach:
  assumes "j < length ps"
  shows "\<exists>k. (cp + 1 + k) mod length ps = j"
proof -
  let ?n = "length ps"
  have n: "0 < ?n" using assms by auto
  have lt: "(cp + 1) mod ?n < ?n" using n by simp
  have "(cp + 1 + (j + ?n - (cp + 1) mod ?n)) mod ?n
        = (j + ?n + ((cp + 1) - (cp + 1) mod ?n)) mod ?n"
    using lt by (intro arg_cong[where f="\<lambda>x. x mod ?n"]) (simp add: mod_le_divisor)
  also have "(cp + 1) - (cp + 1) mod ?n = ?n * ((cp + 1) div ?n)"
    by (simp add: minus_mod_eq_mult_div)
  also have "(j + ?n + ?n * ((cp + 1) div ?n)) mod ?n = j"
    using assms by simp
  finally show ?thesis by blast
qed

lemma nextPlayer_measure:
  assumes "eliminated (ps ! ((cp + 1) mod length ps))" and "p \<in> set ps" and "\<not> eliminated p"
  shows "(LEAST k. \<not> eliminated (ps ! (((cp + 1) mod length ps + 1 + k) mod length ps)))
       < (LEAST k. \<not> eliminated (ps ! ((cp + 1 + k) mod length ps)))"
proof -
  let ?n = "length ps"
  let ?P = "\<lambda>k. \<not> eliminated (ps ! ((cp + 1 + k) mod ?n))"
  obtain j where j: "j < ?n" "ps ! j = p" using assms(2) by (auto simp: in_set_conv_nth)
  obtain k where k: "(cp + 1 + k) mod ?n = j" using nextPlayer_reach[OF j(1)] by blast
  have Pk: "?P k" using k j assms(3) by simp
  have P0: "\<not> ?P 0" using assms(1) by simp
  have eq: "((cp + 1) mod ?n + 1 + m) mod ?n = (cp + 1 + Suc m) mod ?n" for m
    by (metis add.assoc mod_add_left_eq plus_1_eq_Suc)
  have "(LEAST k. ?P k) = Suc (LEAST m. ?P (Suc m))"
    by (rule Least_Suc[OF Pk P0])
  moreover have "(LEAST m. ?P (Suc m))
      = (LEAST k. \<not> eliminated (ps ! (((cp + 1) mod ?n + 1 + k) mod ?n)))"
    by (simp only: eq)
  ultimately show ?thesis by linarith
qed

termination nextPlayer
  by (relation "measure (\<lambda>(ps, cp). LEAST k. \<not> eliminated (ps ! ((cp + 1 + k) mod length ps)))")
     (use nextPlayer_measure in auto)

text \<open>
  \<open>Object.fromEntries\<close>: an object is a list of properties with distinct keys; setting
  a key that is there replaces its value in place, a new key goes to the end.
\<close>

definition fromEntries :: "('k \<times> 'v) list \<Rightarrow> ('k \<times> 'v) list" where
  "fromEntries kvs = foldl (\<lambda>obj (k, v). AList.update k v obj) [] kvs"

text \<open>The history record assembled when one player is left.\<close>

definition buildHistory :: "game_state \<Rightarrow> game_player \<Rightarrow> history" where
  "buildHistory gs w =
     \<lparr>winner = username w,
      eliminations_h =
        map (\<lambda>log. \<lparr>eliminator = shooter log, eliminated_h = player log\<rparr>)
          (filter (\<lambda>log. type_l log = ''eliminate'') (gameLog gs)),
      playerStats = fromEntries (map (\<lambda>p. (username p, stats p)) (players gs))\<rparr>"

text \<open>
  The code after the switch. With an empty \<open>players\<close> array the new index is \<open>NaN\<close>
  and reading \<open>eliminated\<close> of \<open>players[NaN]\<close> throws.
\<close>

definition activePlayers :: "game_state \<Rightarrow> game_player list" where
  "activePlayers gs = filter (\<lambda>p. \<not> eliminated p) (players gs)"

definition end_of_action :: "game_state \<Rightarrow> failure + action_result" where
  "end_of_action gs =
     (if length (activePlayers gs) = 1 then
        Inr \<lparr>gameState_r = gs, gameEnded = True,
             history_r = Some (buildHistory gs (activePlayers gs ! 0))\<rparr>
      else if players gs = [] then Inl TypeError
      else
        Inr \<lparr>gameState_r = gs\<lparr>currentPlayer := nextPlayer (players gs) (currentPlayer gs)\<rparr>,
             gameEnded = False, history_r = None\<rparr>)"

text \<open>
  \<open>processGameAction\<close> reads nothing of the room but \<open>room.gameState\<close>; the embedding
  takes that object. The switch has no default case.
\<close>

definition switch_action :: "game_state \<Rightarrow> string \<Rightarrow> action_data \<Rightarrow> failure + game_state" where
  "switch_action gs action d =
     (if action = ''roll'' then case_roll gs d
      else if action = ''shoot'' then case_shoot gs d
      else if action = ''emote'' then case_emote gs d
      else Inr gs)"

definition processGameAction :: "game_state \<Rightarrow> string \<Rightarrow> action_data \<Rightarrow> failure + action_result" where
  "processGameAction gs action d =
     (case switch_action gs action d of
        Inl e \<Rightarrow> Inl e
      | Inr gs1 \<Rightarrow> end_of_action gs1)"

section \<open>States of a running game\<close>

text \<open>\<open>gameState.players[p].cells[i]\<close>, read through the store.\<close>

definition slot :: "game_state \<Rightarrow> nat \<Rightarrow> nat \<Rightarrow> addr" where
  "slot gs p i = cells (players gs ! p) ! i"

definition cellAt :: "game_state \<Rightarrow> nat \<Rightarrow> nat \<Rightarrow> cell" where
  "cellAt gs p i = heap gs ! slot gs p i"

text \<open>The Cell invariant of the data model.\<close>

definition cell_ok :: "cell \<Rightarrow> bool" where
  "cell_ok c = (0 \<le> stage c \<and> stage c \<le> 6 \<and> (isActive c \<longleftrightarrow> 1 \<le> stage c) \<and>
                0 \<le> bullets c \<and> bullets c \<le> 5 \<and> (0 < bullets c \<longrightarrow> stage c = 6))"

text \<open>
  An object that sits in two slots is an untouched fill object: inactive and without
  bullets. The engine writes to a cell object only when it is active (roll) or has a
  bullet (shoot), so such an object is never written to.
\<close>

definition inert :: "cell \<Rightarrow> bool" where
  "inert c = (\<not> isActive c \<and> bullets c = 0)"

definition unshared :: "game_state \<Rightarrow> bool" where
  "unshared gs =
     (\<forall>p \<in> {0 ..< length (players gs)}. \<forall>i \<in> {0 ..< length (players gs)}.
      \<forall>q \<in> {0 ..< length (players gs)}. \<forall>j \<in> {0 ..< length (players gs)}.
        (p, i) \<noteq> (q, j) \<longrightarrow> slot gs p i = slot gs q j \<longrightarrow> inert (heap gs ! slot gs p i))"

text \<open>
  What \<open>initializeGameState\<close> establishes for a non-empty roster and every action
  keeps: a current player, \<open>N\<close> cells per player for \<open>N\<close> players, references that
  point into the store, cells within their ranges, and no sharing of a live cell.
\<close>

definition wf_state :: "game_state \<Rightarrow> bool" where
  "wf_state gs =
     (players gs \<noteq> [] \<and> currentPlayer gs < length (players gs) \<and>
      (\<forall>p \<in> set (players gs). length (cells p) = length (players gs) \<and>
         (\<forall>a \<in> set (cells p). a < length (heap gs))) \<and>
      (\<forall>c \<in> set (heap gs). cell_ok c) \<and>
      unshared gs)"

text \<open>
  The two tests of the \<open>shoot\<close> case: \<open>gameState.lastRoll === targetCell + 1\<close> and
  \<open>shooterCell.bullets > 0\<close>, for a \<open>targetCell\<close> inside the actor's array.
\<close>

definition shotLands :: "game_state \<Rightarrow> action_data \<Rightarrow> bool" where
  "shotLands gs d =
     (lastRoll gs = Some (targetCell d + 1) \<and>
      0 < bullets (cellAt gs (currentPlayer gs) (nat (targetCell d))))"

text \<open>
  The states of a running game: what \<open>initializeGameState\<close> builds from a non-empty
  roster, and what \<open>processGameAction\<close> returns on such a state.
\<close>

inductive in_play :: "game_state \<Rightarrow> bool" where
  start: "roster \<noteq> [] \<Longrightarrow> in_play (initializeGameState roster)"
| step: "in_play gs \<Longrightarrow> processGameAction gs action d = Inr r \<Longrightarrow> in_play (gameState_r r)"

section \<open>Rooms and the server's handlers\<close>

text \<open>
  A \<open>password\<close> property holds a string, \<open>null\<close> (a room created without one) or is
  \<open>undefined\<close> (absent, as in a quick-match room, or set to \<open>undefined\<close> in a payload,
  which the JSON encoding leaves out).
\<close>

datatype js_pw = Undefined | Null | Str string

text \<open>JavaScript truthiness of such a value: a non-empty string.\<close>

fun truthy :: "js_pw \<Rightarrow> bool" where
  "truthy (Str s) = (s \<noteq> [])"
| "truthy _ = False"

text \<open>\<open>isQuickMatch\<close> is absent in a room made by \<open>createRoom\<close> and reads as false there.\<close>

record room =
  id_r :: string
  leader :: string
  password :: js_pw
  maxPlayers :: int
  isQuickMatch :: bool
  players_r :: "lobby_player list"
  gameState :: "game_state option"
  started :: bool

text \<open>
  The \<open>rooms\<close> Map, in insertion order: \<open>rooms.get\<close> is \<open>map_of\<close>, \<open>rooms.set\<close> is
  \<open>AList.update\<close> (a new key goes to the end, a known key keeps its place) and
  \<open>rooms.delete\<close> is \<open>AList.delete\<close>. A room object mutated in place is written back
  under its key.
\<close>

record server =
  rooms :: "(string \<times> room) list"

text \<open>
  What a handler sends: \<open>socket.emit\<close> addresses the handler's own connection,
  \<open>io.to(roomId).emit\<close> the connections that joined \<open>roomId\<close>. Which connections those
  are is the transport's state (\<open>socket.join\<close>, \<open>socket.leave\<close>) and is not modelled;
  a broadcast is recorded with the room id it is addressed to.
\<close>

datatype recipient = ToSocket string | ToRoom string

datatype event =
    RoomCreated room
  | PlayerJoined room
  | RoomUpdated room
  | PlayerLeft room string
  | GameStarted game_state
  | GameStateUpdated game_state
  | GameEnded "history option"
  | Emote string string
  | Error string
  | LeaveRoom

type_synonym push = "recipient \<times> event"

text \<open>The Room object an event carries, if it carries one.\<close>

fun room_of :: "event \<Rightarrow> room option" where
  "room_of (RoomCreated r) = Some r"
| "room_of (PlayerJoined r) = Some r"
| "room_of (RoomUpdated r) = Some r"
| "room_of (PlayerLeft r u) = Some r"
| "room_of _ = None"

text \<open>\<open>{ ...room, password: undefined }\<close>\<close>

definition strip :: "room \<Rightarrow> room" where
  "strip r = r\<lparr>password := Undefined\<rparr>"

text \<open>
  \<open>generateRoomId\<close> draws random six-digit strings until one is not a key of \<open>rooms\<close>.
  The draws are given as a list; \<open>None\<close> says that the loop has not returned when the
  list is used up.
\<close>

fun generateRoomId :: "(string \<times> room) list \<Rightarrow> string list \<Rightarrow> string option" where
  "generateRoomId rs [] = None"
| "generateRoomId rs (roomId # draws) =
     (if map_of rs roomId \<noteq> None then generateRoomId rs draws else Some roomId)"

text \<open>\<open>Array.prototype.findIndex\<close>, with \<open>None\<close> for \<open>-1\<close>.\<close>

fun findIndex :: "('a \<Rightarrow> bool) \<Rightarrow> 'a list \<Rightarrow> nat option" where
  "findIndex P [] = None"
| "findIndex P (x # xs) = (if P x then Some 0 else map_option Suc (findIndex P xs))"

subsection \<open>quickMatch\<close>

definition findOrCreateQuickMatch ::
    "server \<Rightarrow> string \<Rightarrow> string \<Rightarrow> string list \<Rightarrow> (server \<times> push list) option" where
  "findOrCreateQuickMatch s socket_id uname draws =
     (case find (\<lambda>(roomId, r). isQuickMatch r \<and> \<not> started r \<and>
                    int (length (players_r r)) < maxPlayers r) (rooms s) of
        Some (roomId, r) \<Rightarrow>
          (let r1 = r\<lparr>players_r := players_r r @
                 [\<lparr>id_l = socket_id, username_l = uname, ready = True, isLeader = False,
                   color_l = PLAYER_COLORS ! (length (players_r r) mod length PLAYER_COLORS)\<rparr>]\<rparr>;
               joined = (ToRoom roomId, PlayerJoined r1)
           in if int (length (players_r r1)) = maxPlayers r1 then
                (let r2 = r1\<lparr>started := True,
                              gameState := Some (initializeGameState (players_r r1))\<rparr>
                 in Some (s\<lparr>rooms := AList.update roomId r2 (rooms s)\<rparr>,
                      [joined,
                       (ToRoom roomId, GameStarted (initializeGameState (players_r r1)))]))
              else Some (s\<lparr>rooms := AList.update roomId r1 (rooms s)\<rparr>, [joined]))
      | None \<Rightarrow>
          (case generateRoomId (rooms s) draws of
             None \<Rightarrow> None
           | Some roomId \<Rightarrow>
               (let r = \<lparr>id_r = roomId, leader = socket_id, password = Undefined,
                         maxPlayers = 4, isQuickMatch = True,
                         players_r = [\<lparr>id_l = socket_id, username_l = uname, ready = True,
                                       isLeader = True, color_l = PLAYER_COLORS ! 0\<rparr>],
                         gameState = None, started = False\<rparr>
                in Some (s\<lparr>rooms := AList.update roomId r (rooms s)\<rparr>,
                     [(ToSocket socket_id, RoomCreated r)]))))"

subsection \<open>createRoom, joinRoom\<close>

definition createRoom ::
    "server \<Rightarrow> string \<Rightarrow> int \<Rightarrow> js_pw \<Rightarrow> string \<Rightarrow> string list \<Rightarrow> (server \<times> push list) option" where
  "createRoom s socket_id maxP pw uname draws =
     (case generateRoomId (rooms s) draws of
        None \<Rightarrow> None
      | Some roomId \<Rightarrow>
          (let r = \<lparr>id_r = roomId, leader = socket_id,
                    password = (if truthy pw then pw else Null),
                    maxPlayers = maxP, isQuickMatch = False,
                    players_r = [\<lparr>id_l = socket_id, username_l = uname, ready = True,
                                  isLeader = True, color_l = PLAYER_COLORS ! 0\<rparr>],
                    gameState = None, started = False\<rparr>
           in Some (s\<lparr>rooms := AList.update roomId r (rooms s)\<rparr>,
                [(ToSocket socket_id, RoomCreated (strip r))])))"

definition joinRoom :: "server \<Rightarrow> string \<Rightarrow> string \<Rightarrow> js_pw \<Rightarrow> string \<Rightarrow> server \<times> push list" where
  "joinRoom s socket_id roomId pw uname =
     (case map_of (rooms s) roomId of
        None \<Rightarrow> (s, [(ToSocket socket_id, Error ''Room not found'')])
      | Some r \<Rightarrow>
          if truthy (password r) \<and> password r \<noteq> pw then
            (s, [(ToSocket socket_id, Error ''Incorrect password'')])
          else if int (length (players_r r)) \<ge> maxPlayers r then
            (s, [(ToSocket socket_id, Error ''Room is full'')])
          else if started r then
            (s, [(ToSocket socket_id, Error ''Game already in progress'')])
          else
            (let r1 = r\<lparr>players_r := players_r r @
                   [\<lparr>id_l = socket_id, username_l = uname, ready = False, isLeader = False,
                     color_l = PLAYER_COLORS ! (length (players_r r) mod length PLAYER_COLORS)\<rparr>]\<rparr>
             in (s\<lparr>rooms := AList.update roomId r1 (rooms s)\<rparr>,
                 [(ToRoom roomId, PlayerJoined (strip r1))])))"

subsection \<open>toggleReady, startGame\<close>

definition toggleReady :: "server \<Rightarrow> string \<Rightarrow> string \<Rightarrow> server \<times> push list" where
  "toggleReady s socket_id roomId =
     (case map_of (rooms s) roomId of
        None \<Rightarrow> (s, [])
      | Some r \<Rightarrow>
          (case findIndex (\<lambda>p. id_l p = socket_id) (players_r r) of
             None \<Rightarrow> (s, [])
           | Some i \<Rightarrow>
               (let r1 = r\<lparr>players_r := (players_r r)[i :=
                      (players_r r ! i)\<lparr>ready := \<not> ready (players_r r ! i)\<rparr>]\<rparr>
                in (s\<lparr>rooms := AList.update roomId r1 (rooms s)\<rparr>,
                    [(ToRoom roomId, RoomUpdated (strip r1))]))))"

definition startGame :: "server \<Rightarrow> string \<Rightarrow> string \<Rightarrow> server \<times> push list" where
  "startGame s socket_id roomId =
     (case map_of (rooms s) roomId of
        None \<Rightarrow> (s, [])
      | Some r \<Rightarrow>
          if leader r \<noteq> socket_id then (s, [])
          else if (\<forall>p \<in> set (players_r r). ready p) then
            (let r1 = r\<lparr>started := True,
                         gameState := Some (initializeGameState (players_r r))\<rparr>
             in (s\<lparr>rooms := AList.update roomId r1 (rooms s)\<rparr>,
                 [(ToRoom roomId, GameStarted (initializeGameState (players_r r)))]))
          else (s, []))"

subsection \<open>gameAction, sendEmote\<close>

text \<open>
  An exception thrown in \<open>gameAction\<close> (by \<open>processGameAction\<close>, or by reading the
  current player of a state that has none) is not caught: \<open>None\<close>.
\<close>

definition gameAction ::
    "server \<Rightarrow> string \<Rightarrow> string \<Rightarrow> string \<Rightarrow> action_data \<Rightarrow> (server \<times> push list) option" where
  "gameAction s socket_id roomId action d =
     (case map_of (rooms s) roomId of
        None \<Rightarrow> Some (s, [])
      | Some r \<Rightarrow>
          if \<not> started r then Some (s, [])
          else
            (case gameState r of
               None \<Rightarrow> None
             | Some gs \<Rightarrow>
                 (case lookup (players gs) (int (currentPlayer gs)) of
                    None \<Rightarrow> None
                  | Some cur \<Rightarrow>
                      if id_g cur \<noteq> socket_id then Some (s, [])
                      else
                        (case processGameAction gs action d of
                           Inl e \<Rightarrow> None
                         | Inr result \<Rightarrow>
                             (let r1 = r\<lparr>gameState := Some (gameState_r result)\<rparr>;
                                  s1 = s\<lparr>rooms := AList.update roomId r1 (rooms s)\<rparr>
                              in if gameEnded result then
                                   Some (s1, [(ToRoom roomId, GameEnded (history_r result))])
                                 else
                                   Some (s1, [(ToRoom roomId,
                                               GameStateUpdated (gameState_r result))]))))))"

definition sendEmote :: "server \<Rightarrow> string \<Rightarrow> string \<Rightarrow> string \<Rightarrow> server \<times> push list" where
  "sendEmote s socket_id roomId e =
     (case map_of (rooms s) roomId of
        None \<Rightarrow> (s, [])
      | Some r \<Rightarrow>
          (case find (\<lambda>p. id_l p = socket_id) (players_r r) of
             None \<Rightarrow> (s, [])
           | Some p \<Rightarrow> (s, [(ToRoom roomId, Emote (username_l p) e)])))"

subsection \<open>leaveRoom, disconnect\<close>

text \<open>
  One pass of the loop body of \<open>leaveRoom\<close> over a room that holds the connection at
  \<open>playerIndex\<close>: the room after \<open>splice\<close> and the leader transfer, and whether
  \<open>rooms.delete\<close> ran.
\<close>

definition leave_one :: "string \<Rightarrow> room \<Rightarrow> nat \<Rightarrow> room \<times> bool" where
  "leave_one socket_id r playerIndex =
     (let ps = take playerIndex (players_r r) @ drop (Suc playerIndex) (players_r r);
          r1 = r\<lparr>players_r := ps\<rparr>
      in if length ps = 0 then (r1, True)
         else if leader r1 = socket_id then
           (r1\<lparr>leader := id_l (ps ! 0), players_r := ps[0 := (ps ! 0)\<lparr>isLeader := True\<rparr>]\<rparr>,
            False)
         else (r1, False))"

text \<open>
  The loop over \<open>rooms.entries()\<close>. An iteration touches only its own entry, and a Map
  can be deleted from while it is iterated, so the loop is a pass over the list that
  rebuilds it.
\<close>

fun leave_loop :: "string \<Rightarrow> (string \<times> room) list \<Rightarrow> (string \<times> room) list \<times> push list" where
  "leave_loop socket_id [] = ([], [])"
| "leave_loop socket_id ((roomId, r) # rest) =
     (let (rest1, out) = leave_loop socket_id rest
      in case findIndex (\<lambda>p. id_l p = socket_id) (players_r r) of
           None \<Rightarrow> ((roomId, r) # rest1, out)
         | Some playerIndex \<Rightarrow>
             (let uname = username_l (players_r r ! playerIndex);
                  (r1, deleted) = leave_one socket_id r playerIndex;
                  left = (ToRoom roomId, PlayerLeft (strip r1) uname)
              in ((if deleted then rest1 else (roomId, r1) # rest1), left # out)))"

definition leaveRoom :: "server \<Rightarrow> string \<Rightarrow> server \<times> push list" where
  "leaveRoom s socket_id =
     (let (rs, out) = leave_loop socket_id (rooms s) in (s\<lparr>rooms := rs\<rparr>, out))"

text \<open>
  The \<open>disconnect\<close> handler calls \<open>socket.emit('leaveRoom')\<close>. As in every other
  handler of the server, \<open>socket.emit\<close> sends an event to the client of the connection;
  it does not run the server's own \<open>leaveRoom\<close> listener, and the state is left as it
  is.
\<close>

definition disconnect :: "server \<Rightarrow> string \<Rightarrow> server \<times> push list" where
  "disconnect s socket_id = (s, [(ToSocket socket_id, LeaveRoom)])"

subsection \<open>The event loop\<close>

datatype request =
    QuickMatch string string "string list"
  | CreateRoom string int js_pw string "string list"
  | JoinRoom string string js_pw string
  | ToggleReady string string
  | StartGame string string
  | GameAction string string string action_data
  | SendEmote string string string
  | LeaveRoomReq string
  | Disconnect string

text \<open>The first argument of every request is the id of the connection it came from.\<close>

fun handle :: "server \<Rightarrow> request \<Rightarrow> (server \<times> push list) option" where
  "handle s (QuickMatch c uname draws) = findOrCreateQuickMatch s c uname draws"
| "handle s (CreateRoom c maxP pw uname draws) = createRoom s c maxP pw uname draws"
| "handle s (JoinRoom c roomId pw uname) = Some (joinRoom s c roomId pw uname)"
| "handle s (ToggleReady c roomId) = Some (toggleReady s c roomId)"
| "handle s (StartGame c roomId) = Some (startGame s c roomId)"
| "handle s (GameAction c roomId action d) = gameAction s c roomId action d"
| "handle s (SendEmote c roomId e) = Some (sendEmote s c roomId e)"
| "handle s (LeaveRoomReq c) = Some (leaveRoom s c)"
| "handle s (Disconnect c) = Some (disconnect s c)"

text \<open>
  The server handles one request after the other, to completion. \<open>serve\<close> returns the
  final state and everything sent, in order; \<open>None\<close> when a handler did not return.
\<close>

fun serve :: "server \<Rightarrow> request list \<Rightarrow> (server \<times> push list) option" where
  "serve s [] = Some (s, [])"
| "serve s (req # reqs) =
     (case handle s req of
        None \<Rightarrow> None
      | Some (s1, out1) \<Rightarrow>
          (case serve s1 reqs of
             None \<Rightarrow> None
           | Some (s2, out2) \<Rightarrow> Some (s2, out1 @ out2)))"

definition initial :: server where
  "initial = \<lparr>rooms = []\<rparr>"

subsection \<open>Passwords in payloads\<close>

text \<open>An event is \<open>stripped\<close> when the Room it carries, if any, has no password property.\<close>

definition stripped :: "event \<Rightarrow> bool" where
  "stripped e = (case room_of e of None \<Rightarrow> True | Some r \<Rightarrow> password r = Undefined)"

text \<open>
  Only \<open>findOrCreateQuickMatch\<close> makes a room with \<open>isQuickMatch\<close> set, and it gives the
  room no password property; no handler assigns to either property afterwards.
\<close>

definition quick_rooms_open :: "server \<Rightarrow> bool" where
  "quick_rooms_open s = (\<forall>(k, r) \<in> set (rooms s). isQuickMatch r \<longrightarrow> password r = Undefined)"

section \<open>Sample inputs\<close>

text \<open>
  \<open>play\<close> feeds a list of actions to \<open>processGameAction\<close>, each on the state the
  previous one returned, as the \<open>gameAction\<close> handler does with the requests of the
  players whose turn it is.
\<close>

fun play :: "game_state \<Rightarrow> (string \<times> action_data) list \<Rightarrow> failure + game_state" where
  "play gs [] = Inr gs"
| "play gs ((action, d) # rest) =
     (case processGameAction gs action d of
        Inl e \<Rightarrow> Inl e
      | Inr r \<Rightarrow> play (gameState_r r) rest)"

definition roster2 :: "lobby_player list" where
  "roster2 =
     [\<lparr>id_l = ''s1'', username_l = ''A'', ready = True, isLeader = True, color_l = ''#3B82F6''\<rparr>,
      \<lparr>id_l = ''s2'', username_l = ''B'', ready = True, isLeader = False, color_l = ''#EF4444''\<rparr>]"

definition noData :: action_data where
  "noData = \<lparr>value_d = 0, targetPlayer = 0, targetCell = 0, emote = []\<rparr>"

definition rollOne :: "string \<times> action_data" where
  "rollOne = (''roll'', noData\<lparr>value_d := 1\<rparr>)"

definition wave :: "string \<times> action_data" where
  "wave = (''emote'', noData\<lparr>emote := ''hi''\<rparr>)"

text \<open>
  A two-player game in which A rolled a one six times, B rolled a one once and sent
  emotes on its other turns: A's first cell is at stage 6 with five bullets, B's first
  cell is its only active one, and it is A's turn with \<open>lastRoll = 1\<close>.
\<close>

definition duelScript :: "(string \<times> action_data) list" where
  "duelScript = [rollOne, rollOne, rollOne, wave, rollOne, wave, rollOne, wave,
                 rollOne, wave, rollOne, wave]"

definition duel :: game_state where
  "duel =
     \<lparr>currentPlayer = 0,
      players =
        [\<lparr>id_g = ''s1'', username = ''A'', color = ''#3B82F6'', eliminated = False,
           firstMove = False, cells = [2, 0],
           stats = \<lparr>shotsFired = 0, eliminations = 0, timesTargeted = 0\<rparr>\<rparr>,
         \<lparr>id_g = ''s2'', username = ''B'', color = ''#EF4444'', eliminated = False,
           firstMove = False, cells = [3, 1],
           stats = \<lparr>shotsFired = 0, eliminations = 0, timesTargeted = 0\<rparr>\<rparr>],
      lastRoll = Some 1,
      gameLog =
        [(entry ''activate'')\<lparr>player := Some ''A'', cell_l := Some 1\<rparr>,
         (entry ''activate'')\<lparr>player := Some ''B'', cell_l := Some 1\<rparr>,
         (entry ''emote'')\<lparr>player := Some ''B'', message := Some ''hi''\<rparr>,
         (entry ''emote'')\<lparr>player := Some ''B'', message := Some ''hi''\<rparr>,
         (entry ''emote'')\<lparr>player := Some ''B'', message := Some ''hi''\<rparr>,
         (entry ''emote'')\<lparr>player := Some ''B'', message := Some ''hi''\<rparr>,
         (entry ''maxLevel'')\<lparr>player := Some ''A'', cell_l := Some 1\<rparr>,
         (entry ''emote'')\<lparr>player := Some ''B'', message := Some ''hi''\<rparr>],
      heap =
        [freshCell, freshCell,
         \<lparr>stage = 6, isActive = True, bullets = 5\<rparr>,
         \<lparr>stage = 1, isActive = True, bullets = 0\<rparr>]\<rparr>"

definition shootB :: action_data where
  "shootB = noData\<lparr>targetPlayer := 1, targetCell := 0\<rparr>"

definition shootSelf :: action_data where
  "shootSelf = noData\<lparr>targetPlayer := 0, targetCell := 0\<rparr>"

text \<open>A shot that fails the roll test and leaves no trace: the last roll is never a six here.\<close>

definition miss :: "string \<times> action_data" where
  "miss = (''shoot'', noData\<lparr>targetCell := 5\<rparr>)"

definition roster3 :: "lobby_player list" where
  "roster3 =
     [\<lparr>id_l = ''s1'', username_l = ''A'', ready = True, isLeader = True, color_l = ''#3B82F6''\<rparr>,
      \<lparr>id_l = ''s2'', username_l = ''B'', ready = True, isLeader = False, color_l = ''#EF4444''\<rparr>,
      \<lparr>id_l = ''s3'', username_l = ''C'', ready = True, isLeader = False, color_l = ''#10B981''\<rparr>]"

definition trioScript :: "(string \<times> action_data) list" where
  "trioScript = [rollOne, miss, rollOne] @ concat (replicate 5 [rollOne, miss, miss])"

text \<open>
  A three-player game after \<open>trioScript\<close>: A's first cell is at stage 6 with five
  bullets, B has not activated a cell, C has one cell at stage 1, and it is A's turn
  with \<open>lastRoll = 1\<close>.
\<close>

definition trio :: game_state where
  "trio =
     \<lparr>currentPlayer = 0,
      players =
        [\<lparr>id_g = ''s1'', username = ''A'', color = ''#3B82F6'', eliminated = False,
           firstMove = False, cells = [3, 0, 0],
           stats = \<lparr>shotsFired = 0, eliminations = 0, timesTargeted = 0\<rparr>\<rparr>,
         \<lparr>id_g = ''s2'', username = ''B'', color = ''#EF4444'', eliminated = False,
           firstMove = True, cells = [1, 1, 1],
           stats = \<lparr>shotsFired = 0, eliminations = 0, timesTargeted = 0\<rparr>\<rparr>,
         \<lparr>id_g = ''s3'', username = ''C'', color = ''#10B981'', eliminated = False,
           firstMove = False, cells = [4, 2, 2],
           stats = \<lparr>shotsFired = 0, eliminations = 0, timesTargeted = 0\<rparr>\<rparr>],
      lastRoll = Some 1,
      gameLog =
        [(entry ''activate'')\<lparr>player := Some ''A'', cell_l := Some 1\<rparr>,
         (entry ''activate'')\<lparr>player := Some ''C'', cell_l := Some 1\<rparr>,
         (entry ''maxLevel'')\<lparr>player := Some ''A'', cell_l := Some 1\<rparr>],
      heap =
        [freshCell, freshCell, freshCell,
         \<lparr>stage = 6, isActive = True, bullets = 5\<rparr>,
         \<lparr>stage = 1, isActive = True, bullets = 0\<rparr>]\<rparr>"

text \<open>
  A server with one room, created by connection \<open>s1\<close> (user A) with a password and room
  for four, and the same server after connection \<open>s2\<close> (user B) has joined the room.
\<close>

definition playerA :: lobby_player where
  "playerA = \<lparr>id_l = ''s1'', username_l = ''A'', ready = True, isLeader = True,
               color_l = ''#3B82F6''\<rparr>"

definition playerB :: lobby_player where
  "playerB = \<lparr>id_l = ''s2'', username_l = ''B'', ready = False, isLeader = False,
               color_l = ''#EF4444''\<rparr>"

definition room1 :: room where
  "room1 = \<lparr>id_r = ''123456'', leader = ''s1'', password = Str ''secret'', maxPlayers = 4,
             isQuickMatch = False, players_r = [playerA], gameState = None, started = False\<rparr>"

definition lobby1 :: server where
  "lobby1 = \<lparr>rooms = [(''123456'', room1)]\<rparr>"

definition lobby2 :: server where
  "lobby2 = \<lparr>rooms = [(''123456'', room1\<lparr>players_r := [playerA, playerB]\<rparr>)]\<rparr>"

text \<open>
  A session: A creates a private room and B joins it; C asks for a quick match (the first
  id drawn is taken) and D is matched into C's room; B toggles ready and leaves; A
  disconnects.
\<close>

definition session :: "request list" where
  "session =
     [CreateRoom ''s1'' 4 (Str ''secret'') ''A'' [''123456''],
      JoinRoom ''s2'' ''123456'' (Str ''secret'') ''B'',
      QuickMatch ''s3'' ''C'' [''123456'', ''654321''],
      QuickMatch ''s4'' ''D'' [],
      ToggleReady ''s2'' ''123456'',
      LeaveRoomReq ''s2'',
      Disconnect ''s1'']"

section \<open>Lemmas about the engine\<close>

subsection \<open>The turn loop\<close>

text \<open>
  What \<open>nextPlayer\<close> returns: an index of the list; with a player left, the first
  index after the given one, cyclically, whose player is not eliminated; with none
  left, the next index.
\<close>

lemma nextPlayer_lt: "ps \<noteq> [] \<Longrightarrow> nextPlayer ps cp < length ps"
proof (induction ps cp rule: nextPlayer.induct)
  case (1 ps cp)
  show ?case
  proof (cases "eliminated (ps ! ((cp + 1) mod length ps)) \<and> (\<exists>p \<in> set ps. \<not> eliminated p)")
    case True
    then show ?thesis using 1 by (subst nextPlayer.simps) (simp add: Let_def)
  next
    case False
    then show ?thesis using 1(2) by (subst nextPlayer.simps) (auto simp: Let_def)
  qed
qed

lemma nextPlayer_all_eliminated:
  "\<forall>p \<in> set ps. eliminated p \<Longrightarrow> nextPlayer ps cp = (cp + 1) mod length ps"
  by (subst nextPlayer.simps) (simp add: Let_def)

lemma mod_shift: "((cp + 1) mod n + 1 + k) mod n = (cp + 1 + Suc k) mod (n::nat)"
  by (metis add.assoc mod_add_left_eq plus_1_eq_Suc)

lemma nextPlayer_first:
  assumes "\<exists>p \<in> set ps. \<not> eliminated p"
  shows "\<exists>k < length ps. nextPlayer ps cp = (cp + 1 + k) mod length ps \<and>
           \<not> eliminated (ps ! nextPlayer ps cp) \<and>
           (\<forall>j < k. eliminated (ps ! ((cp + 1 + j) mod length ps)))"
  using assms
proof (induction ps cp rule: nextPlayer.induct)
  case (1 ps cp)
  let ?n = "length ps"
  let ?c = "(cp + 1) mod ?n"
  have n: "0 < ?n" using 1(2) by (cases ps) auto
  show ?case
  proof (cases "eliminated (ps ! ?c)")
    case False
    then have "nextPlayer ps cp = ?c" by (subst nextPlayer.simps) (simp add: Let_def)
    then show ?thesis using False n by (intro exI[of _ 0]) simp
  next
    case True
    then have eq: "nextPlayer ps cp = nextPlayer ps ?c"
      using 1(2) by (subst nextPlayer.simps) (simp add: Let_def)
    from 1(1)[OF refl _ 1(2)] True 1(2)
    obtain k where k: "k < ?n" "nextPlayer ps ?c = (?c + 1 + k) mod ?n"
        "\<not> eliminated (ps ! nextPlayer ps ?c)"
        "\<forall>j < k. eliminated (ps ! ((?c + 1 + j) mod ?n))"
      by auto
    have "Suc k \<noteq> ?n"
    proof
      assume "Suc k = ?n"
      then have "(cp + 1 + Suc k) mod ?n = ?c" by (metis mod_add_self2)
      then have "nextPlayer ps ?c = ?c" using k(2) by (simp only: mod_shift)
      then show False using k(3) True by simp
    qed
    then have lt: "Suc k < ?n" using k(1) by simp
    have all: "eliminated (ps ! ((cp + 1 + j) mod ?n))" if "j < Suc k" for j
    proof (cases j)
      case 0
      then show ?thesis using True by simp
    next
      case (Suc j')
      then have "j' < k" using that by simp
      then have "eliminated (ps ! ((?c + 1 + j') mod ?n))" using k(4) by blast
      then show ?thesis unfolding Suc by (simp only: mod_shift)
    qed
    have "nextPlayer ps cp = (cp + 1 + Suc k) mod ?n"
      using eq k(2) by (simp only: mod_shift)
    then show ?thesis using lt k(3) eq all by (intro exI[of _ "Suc k"]) simp
  qed
qed

subsection \<open>The parts of processGameAction\<close>

text \<open>
  A call that returns went through the switch and the code after it; neither the
  switch nor a game end changes \<open>currentPlayer\<close>.
\<close>

lemma lookup_Some:
  "lookup xs i = Some x \<longleftrightarrow> 0 \<le> i \<and> i < int (length xs) \<and> x = xs ! nat i"
  by (auto simp: lookup_def)

lemma processGameAction_Inr:
  assumes "processGameAction gs action d = Inr r"
  obtains gs1 where "switch_action gs action d = Inr gs1" "end_of_action gs1 = Inr r"
  using assms unfolding processGameAction_def switch_action_def by (auto split: sum.splits)

lemma end_of_action_ended:
  assumes "end_of_action gs1 = Inr r"
  shows "gameEnded r \<longleftrightarrow> length (activePlayers gs1) = 1"
    and "activePlayers (gameState_r r) = activePlayers gs1"
    and "players (gameState_r r) = players gs1"
    and "gameEnded r \<Longrightarrow> gameState_r r = gs1"
    and "\<not> gameEnded r \<Longrightarrow> gameState_r r = gs1\<lparr>currentPlayer := nextPlayer (players gs1) (currentPlayer gs1)\<rparr>"
  using assms by (auto simp: end_of_action_def activePlayers_def split: if_splits)

lemma end_of_action_frame:
  assumes "players g \<noteq> []"
  shows "\<exists>r. end_of_action g = Inr r \<and> players (gameState_r r) = players g \<and>
           heap (gameState_r r) = heap g \<and> gameLog (gameState_r r) = gameLog g \<and>
           lastRoll (gameState_r r) = lastRoll g"
  using assms by (simp add: end_of_action_def)

lemma end_of_action_total:
  assumes "players g \<noteq> []"
  shows "\<exists>r. end_of_action g = Inr r \<and>
           gameState_r r = g\<lparr>currentPlayer := currentPlayer (gameState_r r)\<rparr>"
  using assms by (simp add: end_of_action_def)

lemma case_roll_currentPlayer:
  "case_roll gs d = Inr gs1 \<Longrightarrow> currentPlayer gs1 = currentPlayer gs"
  by (auto simp: case_roll_def roll_cell_def Let_def split: option.splits if_splits)

lemma case_shoot_currentPlayer:
  "case_shoot gs d = Inr gs1 \<Longrightarrow> currentPlayer gs1 = currentPlayer gs"
  by (auto simp: case_shoot_def shoot_hit_def Let_def split: option.splits if_splits)

lemma case_emote_currentPlayer:
  "case_emote gs d = Inr gs1 \<Longrightarrow> currentPlayer gs1 = currentPlayer gs"
  by (auto simp: case_emote_def split: option.splits)

lemma switch_currentPlayer:
  "switch_action gs action d = Inr gs1 \<Longrightarrow> currentPlayer gs1 = currentPlayer gs"
  unfolding switch_action_def
  by (auto dest: case_roll_currentPlayer case_shoot_currentPlayer case_emote_currentPlayer
           split: if_splits)

subsection \<open>The eliminated flag\<close>

text \<open>
  Only a shot that lands writes an \<open>eliminated\<close> flag, and only the target's; so an
  action takes one player at most out of the game.
\<close>

lemma allInactive_cong: "cells p = cells q \<Longrightarrow> allInactive h p = allInactive h q"
  by (simp add: allInactive_def)

lemma case_roll_eliminated:
  assumes "case_roll gs d = Inr gs1"
  shows "length (players gs1) = length (players gs)"
    and "eliminated (players gs1 ! i) = eliminated (players gs ! i)"
  using assms
  by (auto simp: case_roll_def roll_cell_def Let_def lookup_Some nth_list_update
           split: option.splits if_splits)

lemma case_emote_eliminated:
  assumes "case_emote gs d = Inr gs1"
  shows "players gs1 = players gs"
  using assms by (auto simp: case_emote_def split: option.splits)

lemma shoot_hit_eliminated:
  assumes "t < length (players gs)" and "cp < length (players gs)"
  shows "length (players (shoot_hit gs cp a t tgt tc)) = length (players gs)"
    and "heap (shoot_hit gs cp a t tgt tc) =
           (heap gs @ [freshCell])[a := ((heap gs @ [freshCell]) ! a)\<lparr>bullets :=
              bullets ((heap gs @ [freshCell]) ! a) - 1\<rparr>]"
    and "cells (players (shoot_hit gs cp a t tgt tc) ! t) = (cells tgt)[nat tc := length (heap gs)]"
    and "eliminated (players (shoot_hit gs cp a t tgt tc) ! t) =
           allInactive (heap (shoot_hit gs cp a t tgt tc)) (players (shoot_hit gs cp a t tgt tc) ! t)"
    and "i \<noteq> t \<Longrightarrow> eliminated (players (shoot_hit gs cp a t tgt tc) ! i) = eliminated (players gs ! i)"
proof -
  define h2 where "h2 = (heap gs @ [freshCell])[a := ((heap gs @ [freshCell]) ! a)\<lparr>bullets :=
              bullets ((heap gs @ [freshCell]) ! a) - 1\<rparr>]"
  show 1: "length (players (shoot_hit gs cp a t tgt tc)) = length (players gs)"
    by (simp add: shoot_hit_def Let_def)
  show 2: "heap (shoot_hit gs cp a t tgt tc) =
           (heap gs @ [freshCell])[a := ((heap gs @ [freshCell]) ! a)\<lparr>bullets :=
              bullets ((heap gs @ [freshCell]) ! a) - 1\<rparr>]"
    by (simp add: shoot_hit_def Let_def)
  show 3: "cells (players (shoot_hit gs cp a t tgt tc) ! t) = (cells tgt)[nat tc := length (heap gs)]"
    using assms by (simp add: shoot_hit_def Let_def nth_list_update)
  have "eliminated (players (shoot_hit gs cp a t tgt tc) ! t) =
          allInactive h2 (tgt\<lparr>cells := (cells tgt)[nat tc := length (heap gs)]\<rparr>)"
    using assms unfolding h2_def
    by (simp add: shoot_hit_def Let_def nth_list_update allInactive_def)
  also have "\<dots> = allInactive h2 (players (shoot_hit gs cp a t tgt tc) ! t)"
    by (rule allInactive_cong) (simp add: 3)
  finally show "eliminated (players (shoot_hit gs cp a t tgt tc) ! t) =
           allInactive (heap (shoot_hit gs cp a t tgt tc)) (players (shoot_hit gs cp a t tgt tc) ! t)"
    unfolding 2 h2_def .
  show "eliminated (players (shoot_hit gs cp a t tgt tc) ! i) = eliminated (players gs ! i)"
    if "i \<noteq> t"
    using assms that by (simp add: shoot_hit_def Let_def nth_list_update)
qed

lemma case_shoot_cases:
  assumes "case_shoot gs d = Inr gs1"
  obtains (miss) "\<not> shotLands gs d" "gs1 = gs"
  | (hit) "shotLands gs d" "currentPlayer gs < length (players gs)"
      "0 \<le> targetCell d" "nat (targetCell d) < length (cells (players gs ! currentPlayer gs))"
      "0 \<le> targetPlayer d" "nat (targetPlayer d) < length (players gs)"
      "nat (targetCell d) < length (cells (players gs ! nat (targetPlayer d)))"
      "gs1 = shoot_hit gs (currentPlayer gs) (slot gs (currentPlayer gs) (nat (targetCell d)))
               (nat (targetPlayer d)) (players gs ! nat (targetPlayer d)) (targetCell d)"
  using assms
  by (auto simp: case_shoot_def Let_def lookup_Some shotLands_def cellAt_def slot_def
           split: option.splits if_splits)

lemma case_shoot_eliminated:
  assumes "case_shoot gs d = Inr gs1" and "i < length (players gs)"
  shows "length (players gs1) = length (players gs)"
    and "eliminated (players gs1 ! i) =
      (if shotLands gs d \<and> i = nat (targetPlayer d)
       then allInactive (heap gs1) (players gs1 ! i)
       else eliminated (players gs ! i))"
  using assms(1)
  by (cases rule: case_shoot_cases; simp add: shoot_hit_eliminated)+

lemma switch_eliminated:
  assumes "switch_action gs action d = Inr gs1" and "i < length (players gs)"
  shows "length (players gs1) = length (players gs)"
    and "eliminated (players gs1 ! i) =
      (if action = ''shoot'' \<and> shotLands gs d \<and> i = nat (targetPlayer d)
       then allInactive (heap gs1) (players gs1 ! i)
       else eliminated (players gs ! i))"
  using assms unfolding switch_action_def
  by (auto simp: case_roll_eliminated case_emote_eliminated case_shoot_eliminated
           split: if_splits)

lemma initial_not_eliminated:
  "p \<in> set (players (initializeGameState ps)) \<Longrightarrow> \<not> eliminated p"
  by (auto simp: initializeGameState_def)

lemma filter_length_one_index:
  assumes len: "length ys = length xs"
    and same: "\<And>i. i < length xs \<Longrightarrow> i \<noteq> t \<Longrightarrow> P (ys ! i) = P (xs ! i)"
  shows "length (filter P xs) \<le> length (filter P ys) + 1"
proof -
  have "{i. i < length xs \<and> P (xs ! i)} \<subseteq> insert t {i. i < length ys \<and> P (ys ! i)}"
    using len same by auto
  then have "card {i. i < length xs \<and> P (xs ! i)} \<le> card (insert t {i. i < length ys \<and> P (ys ! i)})"
    by (intro card_mono) auto
  also have "\<dots> \<le> card {i. i < length ys \<and> P (ys ! i)} + 1"
    by (simp add: card_insert_if)
  finally show ?thesis by (simp add: length_filter_conv_card)
qed

lemma active_players_drop_by_one:
  assumes "processGameAction gs action d = Inr r"
  shows "length (activePlayers gs) \<le> length (activePlayers (gameState_r r)) + 1"
proof -
  from assms obtain g1 where sw: "switch_action gs action d = Inr g1"
    and e: "end_of_action g1 = Inr r"
    by (rule processGameAction_Inr)
  have p: "players (gameState_r r) = players g1" using end_of_action_ended(3)[OF e] .
  have len: "length (players g1) = length (players gs)"
  proof (cases "players gs")
    case Nil
    then show ?thesis using sw
      by (auto simp: switch_action_def case_roll_def case_shoot_def case_emote_def lookup_def Let_def
               split: if_splits)
  next
    case (Cons a list)
    then have "0 < length (players gs)" by simp
    from switch_eliminated(1)[OF sw this] show ?thesis .
  qed
  have same: "(\<not> eliminated (players g1 ! i)) = (\<not> eliminated (players gs ! i))"
    if "i < length (players gs)" "i \<noteq> nat (targetPlayer d)" for i
    using switch_eliminated(2)[OF sw that(1)] that(2) by simp
  show ?thesis
    unfolding activePlayers_def p
    using len same by (rule filter_length_one_index)
qed

subsection \<open>Well-formed states\<close>

text \<open>
  What \<open>wf_state\<close> gives, and how it is shown.
\<close>

lemma wf_stateI:
  assumes "players g \<noteq> []" and "currentPlayer g < length (players g)"
    and "\<And>p. p < length (players g) \<Longrightarrow> length (cells (players g ! p)) = length (players g)"
    and "\<And>p j. p < length (players g) \<Longrightarrow> j < length (players g) \<Longrightarrow>
           slot g p j < length (heap g)"
    and "\<And>c. c \<in> set (heap g) \<Longrightarrow> cell_ok c"
    and "\<And>p i q j. p < length (players g) \<Longrightarrow> i < length (players g) \<Longrightarrow>
           q < length (players g) \<Longrightarrow> j < length (players g) \<Longrightarrow> (p, i) \<noteq> (q, j) \<Longrightarrow>
           slot g p i = slot g q j \<Longrightarrow> inert (cellAt g p i)"
  shows "wf_state g"
proof -
  have a: "length (cells x) = length (players g) \<and> (\<forall>a \<in> set (cells x). a < length (heap g))"
    if "x \<in> set (players g)" for x
  proof -
    from that obtain p where p: "p < length (players g)" "x = players g ! p"
      by (auto simp: in_set_conv_nth)
    have l: "length (cells x) = length (players g)" using assms(3)[OF p(1)] p(2) by simp
    have "a < length (heap g)" if "a \<in> set (cells x)" for a
    proof -
      from that obtain j where "j < length (cells x)" "a = cells x ! j"
        by (auto simp: in_set_conv_nth)
      then show ?thesis using assms(4)[OF p(1), of j] l p(2) by (simp add: slot_def)
    qed
    then show ?thesis using l by blast
  qed
  have u: "unshared g"
    unfolding unshared_def using assms(6) by (auto simp: cellAt_def)
  show ?thesis unfolding wf_state_def using assms(1,2,5) a u by blast
qed

lemma wf_state_lastRoll [simp]: "wf_state (gs\<lparr>lastRoll := x\<rparr>) = wf_state gs"
  by (simp add: wf_state_def unshared_def slot_def)

lemma wf_state_gameLog [simp]: "wf_state (gs\<lparr>gameLog := x\<rparr>) = wf_state gs"
  by (simp add: wf_state_def unshared_def slot_def)

lemma wf_state_currentPlayer:
  "wf_state gs \<Longrightarrow> x < length (players gs) \<Longrightarrow> wf_state (gs\<lparr>currentPlayer := x\<rparr>)"
  by (simp add: wf_state_def unshared_def slot_def)

lemma wf_cells_length:
  "wf_state gs \<Longrightarrow> p < length (players gs) \<Longrightarrow> length (cells (players gs ! p)) = length (players gs)"
  by (simp add: wf_state_def)

lemma wf_slot_bound:
  "wf_state gs \<Longrightarrow> p < length (players gs) \<Longrightarrow> j < length (players gs) \<Longrightarrow>
   slot gs p j < length (heap gs)"
proof -
  assume wf: "wf_state gs" and p: "p < length (players gs)" and j: "j < length (players gs)"
  have m: "players gs ! p \<in> set (players gs)" using p by simp
  then have "length (cells (players gs ! p)) = length (players gs)"
    using wf by (simp add: wf_state_def)
  then have "cells (players gs ! p) ! j \<in> set (cells (players gs ! p))" using j by simp
  then show ?thesis using wf m unfolding wf_state_def slot_def by blast
qed

lemma wf_currentPlayer: "wf_state gs \<Longrightarrow> currentPlayer gs < length (players gs)"
  by (simp add: wf_state_def)

lemma wf_cell_ok:
  "wf_state gs \<Longrightarrow> p < length (players gs) \<Longrightarrow> j < length (players gs) \<Longrightarrow>
   cell_ok (cellAt gs p j)"
  using wf_slot_bound[of gs p j] by (simp add: wf_state_def cellAt_def)

lemma wf_live_unshared:
  assumes "wf_state gs" and "p < length (players gs)" and "j < length (players gs)"
    and "q < length (players gs)" and "k < length (players gs)"
    and "(p, j) \<noteq> (q, k)" and "\<not> inert (heap gs ! slot gs q k)"
  shows "slot gs p j \<noteq> slot gs q k"
proof
  assume eq: "slot gs p j = slot gs q k"
  have "unshared gs" using assms(1) by (simp add: wf_state_def)
  then have "inert (heap gs ! slot gs p j)"
    using assms(2-6) eq unfolding unshared_def by (simp del: prod.inject) 
  then show False using assms(7) eq by simp
qed

lemma wf_unsharedD:
  assumes "wf_state g" and "p < length (players g)" and "i < length (players g)"
    and "q < length (players g)" and "j < length (players g)" and "(p, i) \<noteq> (q, j)"
    and "slot g p i = slot g q j"
  shows "inert (cellAt g p i)"
  using assms unfolding wf_state_def unshared_def cellAt_def by (simp del: prod.inject)

lemma wf_heap_ok: "wf_state g \<Longrightarrow> c \<in> set (heap g) \<Longrightarrow> cell_ok c"
  by (simp add: wf_state_def)

lemma wf_nonempty: "wf_state g \<Longrightarrow> players g \<noteq> []"
  by (simp add: wf_state_def)

lemma cellAt_cong:
  "players a = players b \<Longrightarrow> heap a = heap b \<Longrightarrow> cellAt a p j = cellAt b p j"
  by (simp add: cellAt_def slot_def)

lemma cellAt_lastRoll [simp]: "cellAt (gs\<lparr>lastRoll := x\<rparr>) p j = cellAt gs p j"
  by (simp add: cellAt_def slot_def)

lemma slot_lastRoll [simp]: "slot (gs\<lparr>lastRoll := x\<rparr>) p j = slot gs p j"
  by (simp add: slot_def)

lemma cellAt_currentPlayer [simp]: "cellAt (g\<lparr>currentPlayer := x\<rparr>) p j = cellAt g p j"
  by (simp add: cellAt_def slot_def)

subsection \<open>roll on a well-formed state\<close>

text \<open>
  The cells after \<open>roll_cell\<close>, read through the store: the rolled cell follows the
  if-chain, every other cell is as before.
\<close>

lemma roll_cell_cellAt:
  assumes wf: "wf_state g" and cp: "cp < length (players g)" and i: "i < length (players g)"
    and cur1: "cells cur1 = cells (players g ! cp)"
    and p: "p < length (players g)" and j: "j < length (players g)"
  shows "cellAt (roll_cell g cp cur1 (int i) (slot g cp i)) p j =
     (if (p, j) = (cp, i) then
        (let c = cellAt g cp i in
         if \<not> isActive c then \<lparr>stage = 1, isActive = True, bullets = 0\<rparr>
         else if stage c < 6 then
           (if stage c + 1 = 6 then c\<lparr>stage := stage c + 1, bullets := 5\<rparr>
            else c\<lparr>stage := stage c + 1\<rparr>)
         else if bullets c = 0 then c\<lparr>bullets := 5\<rparr>
         else c)
      else cellAt g p j)"
proof -
  note b = wf_slot_bound[OF wf]
  note l = wf_cells_length[OF wf]
  show ?thesis
  proof (cases "isActive (cellAt g cp i)")
    case False
    then show ?thesis
      using b[OF p j] b[OF cp i] l[OF cp] l[OF p] cp i p j cur1
      by (auto simp: roll_cell_def Let_def cellAt_def slot_def nth_list_update nth_append)
  next
    case True
    then have "\<not> inert (heap g ! slot g cp i)" by (simp add: inert_def cellAt_def)
    then have ne: "(p, j) \<noteq> (cp, i) \<Longrightarrow> slot g p j \<noteq> slot g cp i"
      using wf_live_unshared[OF wf p j cp i] by blast
    show ?thesis
    proof (cases "(p, j) = (cp, i)")
      case same: True
      then show ?thesis
        using True b[OF cp i] cp i cur1
        by (auto simp: roll_cell_def Let_def cellAt_def slot_def nth_list_update)
    next
      case diff: False
      have "slot (roll_cell g cp cur1 (int i) (slot g cp i)) p j = slot g p j"
        using True cp cur1
        by (auto simp: roll_cell_def Let_def cellAt_def slot_def nth_list_update)
      moreover have "heap (roll_cell g cp cur1 (int i) (slot g cp i)) ! slot g p j = heap g ! slot g p j"
        using True ne[OF diff]
        by (auto simp: roll_cell_def Let_def cellAt_def)
      ultimately show ?thesis using diff by (auto simp: cellAt_def)
    qed
  qed
qed

lemma roll_cell_frame:
  shows roll_cell_gameLog: "gameLog (roll_cell g cp cur1 ci a) = gameLog g @
     (let c = heap g ! a in
      if \<not> isActive c then
        [(entry ''activate'')\<lparr>player := Some (username cur1), cell_l := Some (ci + 1)\<rparr>]
      else if stage c < 6 then
        (if stage c + 1 = 6 then
           [(entry ''maxLevel'')\<lparr>player := Some (username cur1), cell_l := Some (ci + 1)\<rparr>]
         else [])
      else if bullets c = 0 then
        [(entry ''reload'')\<lparr>player := Some (username cur1), cell_l := Some (ci + 1)\<rparr>]
      else [])"
    and roll_cell_lastRoll: "lastRoll (roll_cell g cp cur1 ci a) = lastRoll g"
    and roll_cell_length: "length (players (roll_cell g cp cur1 ci a)) = length (players g)"
    and roll_cell_firstMove: "cp < length (players g) \<Longrightarrow>
          firstMove (players (roll_cell g cp cur1 ci a) ! cp) = firstMove cur1"
  by (simp_all add: roll_cell_def Let_def)

lemma roll_cell_slot:
  assumes cp: "cp < length (players g)" and p: "p < length (players g)"
    and cur1: "cells cur1 = cells (players g ! cp)"
    and i: "i < length (cells (players g ! cp))"
  shows "slot (roll_cell g cp cur1 (int i) a) p j =
     (if (p, j) = (cp, i) \<and> \<not> isActive (heap g ! a) then length (heap g) else slot g p j)"
  using assms by (auto simp: roll_cell_def Let_def slot_def nth_list_update)

lemma roll_cell_cells_length:
  assumes cp: "cp < length (players g)" and p: "p < length (players g)"
    and cur1: "cells cur1 = cells (players g ! cp)"
  shows "length (cells (players (roll_cell g cp cur1 ci a) ! p)) = length (cells (players g ! p))"
  using assms by (auto simp: roll_cell_def Let_def nth_list_update)

lemma roll_cell_heap:
  shows "set (heap (roll_cell g cp cur1 ci a)) \<subseteq> set (heap g) \<union>
     {\<lparr>stage = 1, isActive = True, bullets = 0\<rparr>,
      (heap g ! a)\<lparr>stage := stage (heap g ! a) + 1, bullets := 5\<rparr>,
      (heap g ! a)\<lparr>stage := stage (heap g ! a) + 1\<rparr>,
      (heap g ! a)\<lparr>bullets := 5\<rparr>}"
  and "length (heap g) \<le> length (heap (roll_cell g cp cur1 ci a))"
  and "\<not> isActive (heap g ! a) \<Longrightarrow> length (heap (roll_cell g cp cur1 ci a)) = Suc (length (heap g))"
  by (auto simp: roll_cell_def Let_def dest!: set_update_subset_insert[THEN subsetD])

lemma roll_cell_currentPlayer: "currentPlayer (roll_cell g cp cur1 ci a) = currentPlayer g"
  by (simp add: roll_cell_def Let_def)

lemma case_roll_wf:
  assumes wf: "wf_state gs" and v: "1 \<le> value_d d" "value_d d \<le> int (length (players gs))"
  shows "case_roll gs d = Inr
    (if firstMove (players gs ! currentPlayer gs) \<and> value_d d \<noteq> 1 then
       gs\<lparr>lastRoll := Some (value_d d),
          gameLog := gameLog gs @
            [(entry ''firstMove'')\<lparr>player := Some (username (players gs ! currentPlayer gs)),
               message := Some (username (players gs ! currentPlayer gs) @
                                '' needs to roll a 1 to start!'')\<rparr>]\<rparr>
     else
       roll_cell (gs\<lparr>lastRoll := Some (value_d d)\<rparr>) (currentPlayer gs)
         ((players gs ! currentPlayer gs)\<lparr>firstMove := False\<rparr>)
         (int (nat (value_d d - 1)))
         (slot (gs\<lparr>lastRoll := Some (value_d d)\<rparr>) (currentPlayer gs) (nat (value_d d - 1))))"
proof -
  have cp: "currentPlayer gs < length (players gs)" using wf by (rule wf_currentPlayer)
  have len: "length (cells (players gs ! currentPlayer gs)) = length (players gs)"
    using wf cp by (rule wf_cells_length)
  have l: "lookup (players gs) (int (currentPlayer gs)) = Some (players gs ! currentPlayer gs)"
    using cp by (simp add: lookup_def)
  have c: "lookup (cells (players gs ! currentPlayer gs)) (value_d d - 1)
         = Some (cells (players gs ! currentPlayer gs) ! nat (value_d d - 1))"
    using v len by (simp add: lookup_def)
  show ?thesis
  proof (cases "firstMove (players gs ! currentPlayer gs) \<and> value_d d \<noteq> 1")
    case True
    show ?thesis unfolding case_roll_def Let_def by (simp add: l True)
  next
    case False
    then have cur1: "(if firstMove (players gs ! currentPlayer gs) \<and> value_d d = 1
             then (players gs ! currentPlayer gs)\<lparr>firstMove := False\<rparr>
             else players gs ! currentPlayer gs)
           = (players gs ! currentPlayer gs)\<lparr>firstMove := False\<rparr>"
      by auto
    have n: "int (nat (value_d d - 1)) = value_d d - 1" using v by simp
    show ?thesis unfolding case_roll_def Let_def n
      by (simp add: l c cur1 False slot_def)
  qed
qed

lemma case_roll_range:
  assumes "wf_state gs" and "case_roll gs d = Inr g1"
  shows "(firstMove (players gs ! currentPlayer gs) \<and> value_d d \<noteq> 1) \<or>
         (1 \<le> value_d d \<and> value_d d \<le> int (length (players gs)))"
proof -
  have cp: "currentPlayer gs < length (players gs)" using assms(1) by (rule wf_currentPlayer)
  have len: "length (cells (players gs ! currentPlayer gs)) = length (players gs)"
    using assms(1) cp by (rule wf_cells_length)
  show ?thesis using assms(2) cp len
    by (auto simp: case_roll_def Let_def lookup_def split: if_splits option.splits)
qed

subsection \<open>shoot on a well-formed state\<close>

text \<open>
  The cells, statistics and log after \<open>shoot_hit\<close>.
\<close>

lemma case_shoot_wf:
  assumes wf: "wf_state gs"
    and tp: "0 \<le> targetPlayer d" "targetPlayer d < int (length (players gs))"
    and tc: "0 \<le> targetCell d" "targetCell d < int (length (players gs))"
  shows "case_shoot gs d = Inr
    (if shotLands gs d then
       shoot_hit gs (currentPlayer gs) (slot gs (currentPlayer gs) (nat (targetCell d)))
         (nat (targetPlayer d)) (players gs ! nat (targetPlayer d)) (targetCell d)
     else gs)"
proof -
  have cp: "currentPlayer gs < length (players gs)" using wf by (rule wf_currentPlayer)
  have t: "nat (targetPlayer d) < length (players gs)" using tp by simp
  have len: "length (cells (players gs ! currentPlayer gs)) = length (players gs)"
    using wf cp by (rule wf_cells_length)
  have lent: "length (cells (players gs ! nat (targetPlayer d))) = length (players gs)"
    using wf t by (rule wf_cells_length)
  have l: "lookup (players gs) (int (currentPlayer gs)) = Some (players gs ! currentPlayer gs)"
    using cp by (simp add: lookup_def)
  have lt: "lookup (players gs) (targetPlayer d) = Some (players gs ! nat (targetPlayer d))"
    using tp by (simp add: lookup_def)
  have c: "lookup (cells (players gs ! currentPlayer gs)) (targetCell d)
         = Some (slot gs (currentPlayer gs) (nat (targetCell d)))"
    using tc len by (simp add: lookup_def slot_def)
  have k: "nat (targetCell d) < length (cells (players gs ! nat (targetPlayer d)))"
    using tc lent by simp
  show ?thesis
    by (simp add: case_shoot_def Let_def l c lt k shotLands_def cellAt_def)
qed

lemma shoot_hit_slot:
  assumes "t < length (players gs)" and "cp < length (players gs)"
    and "p < length (players gs)"
  shows "cells (players (shoot_hit gs cp a t tgt tc) ! p) =
     (if p = t then (cells tgt)[nat tc := length (heap gs)] else cells (players gs ! p))"
  using assms by (simp add: shoot_hit_def Let_def nth_list_update)

lemma shoot_hit_cellAt:
  assumes wf: "wf_state gs" and cp: "cp < length (players gs)" and k: "k < length (players gs)"
    and t: "t < length (players gs)"
    and live: "0 < bullets (cellAt gs cp k)"
    and p: "p < length (players gs)" and j: "j < length (players gs)"
  shows "cellAt (shoot_hit gs cp (slot gs cp k) t (players gs ! t) (int k)) p j =
     (if (p, j) = (t, k) then freshCell
      else if (p, j) = (cp, k) then (cellAt gs cp k)\<lparr>bullets := bullets (cellAt gs cp k) - 1\<rparr>
      else cellAt gs p j)"
proof -
  let ?g = "shoot_hit gs cp (slot gs cp k) t (players gs ! t) (int k)"
  note b = wf_slot_bound[OF wf]
  note l = wf_cells_length[OF wf]
  have sl: "slot ?g p' j' = (if (p', j') = (t, k) then length (heap gs) else slot gs p' j')"
    if "p' < length (players gs)" "j' < length (players gs)" for p' j'
    using shoot_hit_slot[OF t cp that(1), of "slot gs cp k" "players gs ! t" "int k"] l[OF t] k that
    by (auto simp: slot_def)
  have hp: "heap ?g = (heap gs @ [freshCell])[slot gs cp k :=
              ((heap gs @ [freshCell]) ! slot gs cp k)\<lparr>bullets :=
                 bullets ((heap gs @ [freshCell]) ! slot gs cp k) - 1\<rparr>]"
    using shoot_hit_eliminated(2)[OF t cp] .
  have "\<not> inert (heap gs ! slot gs cp k)" using live by (simp add: inert_def cellAt_def)
  then have ne: "(p, j) \<noteq> (cp, k) \<Longrightarrow> slot gs p j \<noteq> slot gs cp k"
    using wf_live_unshared[OF wf p j cp k] by blast
  show ?thesis
  proof (cases "(p, j) = (t, k)")
    case True
    then show ?thesis using b[OF cp k] sl[OF t k]
      by (simp add: cellAt_def hp nth_append)
  next
    case nt: False
    show ?thesis
    proof (cases "(p, j) = (cp, k)")
      case True
      then show ?thesis using nt b[OF cp k] sl[OF cp k]
        by (simp add: cellAt_def hp nth_append)
    next
      case False
      then show ?thesis using nt b[OF p j] b[OF cp k] ne[OF False] sl[OF p j]
        by (auto simp: cellAt_def hp nth_append)
    qed
  qed
qed

lemma shoot_hit_stats:
  assumes t: "t < length (players gs)" and cp: "cp < length (players gs)"
  shows "shotsFired (stats (players (shoot_hit gs cp a t (players gs ! t) tc) ! cp)) =
           shotsFired (stats (players gs ! cp)) + 1"
    and "timesTargeted (stats (players (shoot_hit gs cp a t (players gs ! t) tc) ! t)) =
           timesTargeted (stats (players gs ! t)) + 1"
  using assms by (auto simp: shoot_hit_def Let_def nth_list_update)

lemma shoot_hit_gameLog:
  assumes t: "t < length (players gs)" and cp: "cp < length (players gs)"
  shows "gameLog (shoot_hit gs cp a t (players gs ! t) tc) = gameLog gs @
     (entry ''shoot'')\<lparr>shooter := Some (username (players gs ! cp)),
        target := Some (username (players gs ! t)), cell_l := Some (tc + 1)\<rparr> #
     (if eliminated (players (shoot_hit gs cp a t (players gs ! t) tc) ! t)
      then [(entry ''eliminate'')\<lparr>player := Some (username (players gs ! t))\<rparr>] else [])"
  using assms by (auto simp: shoot_hit_def Let_def nth_list_update)

lemma shoot_hit_currentPlayer: "currentPlayer (shoot_hit gs cp a t tgt tc) = currentPlayer gs"
  by (simp add: shoot_hit_def Let_def)

subsection \<open>Every state of a running game is well-formed\<close>

text \<open>
  The initial state is well-formed, every action keeps a state well-formed, and the
  write that would make a \<open>cells\<close> array sparse does not happen.
\<close>

lemma wf_roll_cell:
  assumes wf: "wf_state g" and cp: "cp < length (players g)" and i: "i < length (players g)"
    and cur1: "cells cur1 = cells (players g ! cp)"
  shows "wf_state (roll_cell g cp cur1 (int i) (slot g cp i))"
proof (rule wf_stateI)
  let ?g = "roll_cell g cp cur1 (int i) (slot g cp i)"
  let ?N = "length (players g)"
  let ?c = "cellAt g cp i"
  have N: "length (players ?g) = ?N" by (rule roll_cell_length)
  have ic: "i < length (cells (players g ! cp))" using wf_cells_length[OF wf cp] i by simp
  note sl = roll_cell_slot[OF cp _ cur1 ic, of _ "slot g cp i", folded cellAt_def]
  note ca = roll_cell_cellAt[OF wf cp i cur1]
  have okc: "cell_ok ?c" using wf cp i by (rule wf_cell_ok)
  show "players ?g \<noteq> []" using N wf_nonempty[OF wf] by (metis length_0_conv)
  show "currentPlayer ?g < length (players ?g)"
    using wf_currentPlayer[OF wf] by (simp add: N roll_cell_currentPlayer)
  show "length (cells (players ?g ! p)) = length (players ?g)" if "p < length (players ?g)" for p
    using that roll_cell_cells_length[OF cp _ cur1, of p] wf_cells_length[OF wf, of p] by (simp add: N)
  show "slot ?g p j < length (heap ?g)"
    if "p < length (players ?g)" "j < length (players ?g)" for p j
  proof -
    have pj: "p < ?N" "j < ?N" using that by (simp_all add: N)
    show ?thesis
      using sl[OF pj(1), of j] wf_slot_bound[OF wf pj] roll_cell_heap(2)[of g cp cur1 "int i" "slot g cp i"]
        roll_cell_heap(3)[of g "slot g cp i" cp cur1 "int i"]
      by (auto simp: cellAt_def split: if_splits)
  qed
  show "cell_ok c" if "c \<in> set (heap ?g)" for c
  proof -
    from that roll_cell_heap(1)[of g cp cur1 "int i" "slot g cp i"]
    consider "c \<in> set (heap g)" | "c = \<lparr>stage = 1, isActive = True, bullets = 0\<rparr>"
      | "c \<in> set (heap ?g)" "c \<notin> set (heap g)" "c \<noteq> \<lparr>stage = 1, isActive = True, bullets = 0\<rparr>"
      by blast
    then show ?thesis
    proof cases
      case 1
      then show ?thesis using wf by (rule wf_heap_ok[rotated])
    next
      case 2
      then show ?thesis by (simp add: cell_ok_def)
    next
      case 3
      then show ?thesis using okc
        by (auto simp: roll_cell_def Let_def cell_ok_def cellAt_def split: if_splits
                 dest!: set_update_subset_insert[THEN subsetD])
    qed
  qed
  show "inert (cellAt ?g p k)"
    if h: "p < length (players ?g)" "k < length (players ?g)" "q < length (players ?g)"
      "j < length (players ?g)" "(p, k) \<noteq> (q, j)" "slot ?g p k = slot ?g q j" for p k q j
  proof -
    have b: "p < ?N" "k < ?N" "q < ?N" "j < ?N" using h by (simp_all add: N)
    note bp = wf_slot_bound[OF wf b(1,2)] and bq = wf_slot_bound[OF wf b(3,4)]
    have n1: "(p, k) \<noteq> (cp, i)"
    proof
      assume e: "(p, k) = (cp, i)"
      then have qj: "(q, j) \<noteq> (cp, i)" using h(5) by auto
      show False
      proof (cases "isActive ?c")
        case True
        then have "\<not> inert (heap g ! slot g cp i)" by (simp add: inert_def cellAt_def)
        from wf_live_unshared[OF wf b(3,4) cp i qj this] h(6) e qj True
        show False using sl[OF b(1), of k] sl[OF b(3), of j] by (auto split: if_splits)
      next
        case False
        then show False using h(6) e qj bq sl[OF b(1), of k] sl[OF b(3), of j]
          by (auto split: if_splits)
      qed
    qed
    have n2: "(q, j) \<noteq> (cp, i)"
    proof
      assume e: "(q, j) = (cp, i)"
      show False
      proof (cases "isActive ?c")
        case True
        then have "\<not> inert (heap g ! slot g cp i)" by (simp add: inert_def cellAt_def)
        from wf_live_unshared[OF wf b(1,2) cp i n1 this] h(6) e n1 True
        show False using sl[OF b(1), of k] sl[OF b(3), of j] by (auto split: if_splits)
      next
        case False
        then show False using h(6) e n1 bp sl[OF b(1), of k] sl[OF b(3), of j]
          by (auto split: if_splits)
      qed
    qed
    have "slot g p k = slot g q j"
      using h(6) n1 n2 sl[OF b(1), of k] sl[OF b(3), of j] by (auto split: if_splits)
    from wf_unsharedD[OF wf b h(5) this] show ?thesis
      using ca[OF b(1,2)] n1 by (auto split: if_splits)
  qed
qed

lemma wf_shoot_hit:
  assumes wf: "wf_state gs" and cp: "cp < length (players gs)" and k: "k < length (players gs)"
    and t: "t < length (players gs)" and live: "0 < bullets (cellAt gs cp k)"
  shows "wf_state (shoot_hit gs cp (slot gs cp k) t (players gs ! t) (int k))"
proof (rule wf_stateI)
  let ?g = "shoot_hit gs cp (slot gs cp k) t (players gs ! t) (int k)"
  let ?N = "length (players gs)"
  let ?c = "cellAt gs cp k"
  have N: "length (players ?g) = ?N" using t cp by (rule shoot_hit_eliminated(1))
  have hp: "heap ?g = (heap gs @ [freshCell])[slot gs cp k := ?c\<lparr>bullets := bullets ?c - 1\<rparr>]"
    using shoot_hit_eliminated(2)[OF t cp, of "slot gs cp k" "players gs ! t" "int k"]
      wf_slot_bound[OF wf cp k]
    by (simp add: cellAt_def nth_append)
  have cl: "cells (players ?g ! p) =
       (if p = t then (cells (players gs ! t))[k := length (heap gs)] else cells (players gs ! p))"
    if "p < ?N" for p
    using shoot_hit_slot[OF t cp that, of "slot gs cp k" "players gs ! t" "int k"] by simp
  have sl: "slot ?g p j = (if (p, j) = (t, k) then length (heap gs) else slot gs p j)"
    if "p < ?N" "j < ?N" for p j
    using cl[OF that(1)] wf_cells_length[OF wf t] k that by (auto simp: slot_def)
  note ca = shoot_hit_cellAt[OF wf cp k t live]
  have okc: "cell_ok ?c" using wf cp k by (rule wf_cell_ok)
  have nin: "\<not> inert (heap gs ! slot gs cp k)" using live by (simp add: inert_def cellAt_def)
  show "players ?g \<noteq> []" using N wf_nonempty[OF wf] by (metis length_0_conv)
  show "currentPlayer ?g < length (players ?g)"
    using wf_currentPlayer[OF wf] by (simp add: N shoot_hit_currentPlayer)
  show "length (cells (players ?g ! p)) = length (players ?g)" if "p < length (players ?g)" for p
    using that cl[of p] wf_cells_length[OF wf, of p] wf_cells_length[OF wf t] by (simp add: N)
  show "slot ?g p j < length (heap ?g)"
    if "p < length (players ?g)" "j < length (players ?g)" for p j
    using that sl[of p j] wf_slot_bound[OF wf, of p j] by (auto simp: N hp)
  show "cell_ok c" if "c \<in> set (heap ?g)" for c
  proof -
    from that have "c \<in> insert (?c\<lparr>bullets := bullets ?c - 1\<rparr>) (set (heap gs @ [freshCell]))"
      unfolding hp by (rule set_update_subset_insert[THEN subsetD])
    then consider "c = ?c\<lparr>bullets := bullets ?c - 1\<rparr>" | "c = freshCell" | "c \<in> set (heap gs)"
      by auto
    then show ?thesis
    proof cases
      case 1
      then show ?thesis using okc live by (auto simp: cell_ok_def)
    next
      case 2
      then show ?thesis by (simp add: cell_ok_def freshCell_def)
    next
      case 3
      then show ?thesis using wf by (rule wf_heap_ok[rotated])
    qed
  qed
  show "inert (cellAt ?g p i)"
    if h: "p < length (players ?g)" "i < length (players ?g)" "q < length (players ?g)"
      "j < length (players ?g)" "(p, i) \<noteq> (q, j)" "slot ?g p i = slot ?g q j" for p i q j
  proof -
    have b: "p < ?N" "i < ?N" "q < ?N" "j < ?N" using h by (simp_all add: N)
    note bp = wf_slot_bound[OF wf b(1,2)] and bq = wf_slot_bound[OF wf b(3,4)]
    have n1: "(p, i) \<noteq> (t, k)"
      using h(5,6) sl[OF b(1,2)] sl[OF b(3,4)] bq by (auto split: if_splits)
    have n2: "(q, j) \<noteq> (t, k)"
      using h(5,6) sl[OF b(1,2)] sl[OF b(3,4)] bp by (auto split: if_splits)
    have eq: "slot gs p i = slot gs q j"
      using h(6) n1 n2 sl[OF b(1,2)] sl[OF b(3,4)] by (auto split: if_splits)
    have n3: "(p, i) \<noteq> (cp, k)"
    proof
      assume e: "(p, i) = (cp, k)"
      then have "(q, j) \<noteq> (cp, k)" using h(5) by auto
      from wf_live_unshared[OF wf b(3,4) cp k this nin] eq e show False by simp
    qed
    from wf_unsharedD[OF wf b h(5) eq] show ?thesis
      using ca[OF b(1,2)] n1 n3 by (auto split: if_splits)
  qed
qed

lemma wf_initial:
  assumes "roster \<noteq> []"
  shows "wf_state (initializeGameState roster)"
proof (rule wf_stateI)
  let ?g = "initializeGameState roster"
  let ?n = "length roster"
  have N: "length (players ?g) = ?n" by (simp add: initializeGameState_def)
  have cl: "cells (players ?g ! p) = replicate ?n p" if "p < ?n" for p
    using that by (simp add: initializeGameState_def)
  have sl: "slot ?g p j = p" if "p < ?n" "j < ?n" for p j
    using that by (simp add: slot_def cl)
  have hp: "heap ?g = replicate ?n freshCell" by (simp add: initializeGameState_def)
  show "players ?g \<noteq> []" using assms N by (metis length_0_conv)
  show "currentPlayer ?g < length (players ?g)"
    using assms by (simp add: initializeGameState_def)
  show "length (cells (players ?g ! p)) = length (players ?g)" if "p < length (players ?g)" for p
    using that by (simp add: N cl)
  show "slot ?g p j < length (heap ?g)"
    if "p < length (players ?g)" "j < length (players ?g)" for p j
    using that by (simp add: N sl hp)
  show "cell_ok c" if "c \<in> set (heap ?g)" for c
    using that by (auto simp: hp cell_ok_def freshCell_def)
  show "inert (cellAt ?g p i)"
    if "p < length (players ?g)" "i < length (players ?g)" for p i
    using that by (simp add: N cellAt_def sl hp inert_def freshCell_def)
qed

lemma wf_case_roll:
  assumes wf: "wf_state gs" and r: "case_roll gs d = Inr g1"
  shows "wf_state g1"
proof -
  have cp: "currentPlayer gs < length (players gs)" using wf by (rule wf_currentPlayer)
  from case_roll_range[OF wf r] show ?thesis
  proof
    assume a: "firstMove (players gs ! currentPlayer gs) \<and> value_d d \<noteq> 1"
    then show ?thesis using r cp wf
      by (auto simp: case_roll_def Let_def lookup_def)
  next
    assume v: "1 \<le> value_d d \<and> value_d d \<le> int (length (players gs))"
    show ?thesis
    proof (cases "firstMove (players gs ! currentPlayer gs) \<and> value_d d \<noteq> 1")
      case True
      then show ?thesis using r cp wf
        by (auto simp: case_roll_def Let_def lookup_def)
    next
      case False
      have i: "nat (value_d d - 1) < length (players (gs\<lparr>lastRoll := Some (value_d d)\<rparr>))"
        using v by (simp add: nat_less_iff)
      have "g1 = roll_cell (gs\<lparr>lastRoll := Some (value_d d)\<rparr>) (currentPlayer gs)
         ((players gs ! currentPlayer gs)\<lparr>firstMove := False\<rparr>)
         (int (nat (value_d d - 1)))
         (slot (gs\<lparr>lastRoll := Some (value_d d)\<rparr>) (currentPlayer gs) (nat (value_d d - 1)))"
        using case_roll_wf[OF wf conjunct1[OF v] conjunct2[OF v], unfolded if_not_P[OF False]] r
        by simp
      moreover have "wf_state \<dots>"
        by (rule wf_roll_cell) (use wf cp i in simp_all)
      ultimately show ?thesis by simp
    qed
  qed
qed

lemma wf_case_shoot:
  assumes wf: "wf_state gs" and r: "case_shoot gs d = Inr g1"
  shows "wf_state g1"
  using r
proof (cases rule: case_shoot_cases)
  case miss
  then show ?thesis using wf by simp
next
  case hit
  have k: "nat (targetCell d) < length (players gs)"
    using hit(4) wf_cells_length[OF wf hit(2)] by simp
  have live: "0 < bullets (cellAt gs (currentPlayer gs) (nat (targetCell d)))"
    using hit(1) by (simp add: shotLands_def)
  have "int (nat (targetCell d)) = targetCell d" using hit(3) by simp
  from wf_shoot_hit[OF wf hit(2) k hit(6) live, unfolded this] show ?thesis
    by (simp add: hit(8))
qed

lemma wf_case_emote:
  assumes "wf_state gs" and "case_emote gs d = Inr g1"
  shows "wf_state g1"
  using assms by (auto simp: case_emote_def split: option.splits)

lemma wf_switch_action:
  assumes wf: "wf_state gs" and sw: "switch_action gs action d = Inr g1"
  shows "wf_state g1"
proof (cases "action = ''roll''")
  case True
  then have "case_roll gs d = Inr g1" using sw by (simp add: switch_action_def)
  with wf show ?thesis by (rule wf_case_roll)
next
  case nr: False
  show ?thesis
  proof (cases "action = ''shoot''")
    case True
    then have "case_shoot gs d = Inr g1" using sw nr by (simp add: switch_action_def)
    with wf show ?thesis by (rule wf_case_shoot)
  next
    case ns: False
    show ?thesis
    proof (cases "action = ''emote''")
      case True
      then have "case_emote gs d = Inr g1" using sw nr ns by (simp add: switch_action_def)
      with wf show ?thesis by (rule wf_case_emote)
    next
      case False
      then have "g1 = gs" using sw nr ns by (simp add: switch_action_def)
      with wf show ?thesis by simp
    qed
  qed
qed

lemma wf_end_of_action:
  assumes wf: "wf_state g1" and e: "end_of_action g1 = Inr r"
  shows "wf_state (gameState_r r)"
proof (cases "gameEnded r")
  case True
  then show ?thesis using end_of_action_ended(4)[OF e] wf by simp
next
  case False
  have "nextPlayer (players g1) (currentPlayer g1) < length (players g1)"
    using wf_nonempty[OF wf] by (rule nextPlayer_lt)
  with wf have "wf_state (g1\<lparr>currentPlayer := nextPlayer (players g1) (currentPlayer g1)\<rparr>)"
    by (rule wf_state_currentPlayer)
  then show ?thesis using end_of_action_ended(5)[OF e False] by simp
qed

lemma wf_step:
  assumes "wf_state gs" and "processGameAction gs action d = Inr r"
  shows "wf_state (gameState_r r)"
proof -
  from assms(2) obtain g1 where "switch_action gs action d = Inr g1" "end_of_action g1 = Inr r"
    by (rule processGameAction_Inr)
  then show ?thesis using wf_switch_action[OF assms(1)] wf_end_of_action by blast
qed

lemma in_play_wf: "in_play gs \<Longrightarrow> wf_state gs"
  by (induction rule: in_play.induct) (auto intro: wf_initial wf_step)

lemma no_sparse_write:
  assumes wf: "wf_state gs"
  shows "processGameAction gs action d \<noteq> Inl SparseWrite"
proof -
  have cs: "case_shoot gs d \<noteq> Inl SparseWrite"
  proof
    assume a: "case_shoot gs d = Inl SparseWrite"
    have cp: "currentPlayer gs < length (players gs)" using wf by (rule wf_currentPlayer)
    have len: "length (cells (players gs ! currentPlayer gs)) = length (players gs)"
      using wf cp by (rule wf_cells_length)
    have lt: "0 \<le> tp \<Longrightarrow> tp < int (length (players gs)) \<Longrightarrow>
        length (cells (players gs ! nat tp)) = length (players gs)" for tp
      using wf_cells_length[OF wf, of "nat tp"] by simp
    show False using a cp len lt[of "targetPlayer d"]
      by (auto simp: case_shoot_def Let_def lookup_def split: if_splits option.splits)
  qed
  have cr: "case_roll gs d \<noteq> Inl SparseWrite"
    by (auto simp: case_roll_def Let_def split: if_splits option.splits)
  have ce: "case_emote gs d \<noteq> Inl SparseWrite"
    by (auto simp: case_emote_def split: option.splits)
  have ea: "end_of_action g \<noteq> Inl SparseWrite" for g
    by (auto simp: end_of_action_def)
  show ?thesis using cs cr ce ea
    by (auto simp: processGameAction_def switch_action_def split: sum.splits if_splits)
qed

lemma in_play_play:
  "in_play gs \<Longrightarrow> play gs acts = Inr gs1 \<Longrightarrow> in_play gs1"
proof (induction acts arbitrary: gs)
  case Nil
  then show ?case by simp
next
  case (Cons a acts)
  obtain action d where a: "a = (action, d)" by (cases a)
  from Cons.prems(2) obtain r where r: "processGameAction gs action d = Inr r"
    and rest: "play (gameState_r r) acts = Inr gs1"
    by (auto simp: a split: sum.splits)
  from in_play.step[OF Cons.prems(1) r] have "in_play (gameState_r r)" .
  then show ?case using rest by (rule Cons.IH)
qed

subsection \<open>The sample states\<close>

text \<open>
  The sample states are reached by \<open>play\<close> from initial states.
\<close>

lemma duel_reached: "play (initializeGameState roster2) duelScript = Inr duel"
  by code_simp

lemma trio_reached: "play (initializeGameState roster3) trioScript = Inr trio"
  by code_simp

lemma in_play_initial2: "in_play (initializeGameState roster2)"
  by (rule in_play.start) (simp add: roster2_def)

lemma in_play_duel: "in_play duel"
  using in_play_initial2 duel_reached by (rule in_play_play)

lemma in_play_trio: "in_play trio"
  by (rule in_play_play[OF in_play.start trio_reached]) (simp add: roster3_def)

section \<open>Lemmas about the server\<close>

subsection \<open>The room directory\<close>

text \<open>
  \<open>generateRoomId\<close> returns once a draw is not taken; \<open>rooms.set\<close> changes the entry
  of one key.
\<close>

lemma generateRoomId_returns:
  assumes "x \<in> set draws" and "map_of rs x = None"
  shows "\<exists>roomId. generateRoomId rs draws = Some roomId \<and> map_of rs roomId = None"
  using assms by (induction draws) auto

lemma map_of_rooms_update:
  "map_of (AList.update k v al) k' = (if k' = k then Some v else map_of al k')"
  by (simp add: update_conv')

lemma set_update_cases:
  "(k', v') \<in> set (AList.update k v al) \<Longrightarrow> (k', v') \<in> set al \<or> (k', v') = (k, v)"
  by (induction al) (auto split: if_splits)

subsection \<open>No handler sends a password\<close>

text \<open>
  Every handler keeps \<open>quick_rooms_open\<close> and sends stripped events only, given
  \<open>quick_rooms_open\<close>; so does a run of the server.
\<close>

lemma open_update:
  assumes "quick_rooms_open s" and "isQuickMatch r \<longrightarrow> password r = Undefined"
  shows "quick_rooms_open (s\<lparr>rooms := AList.update k r (rooms s)\<rparr>)"
  using assms unfolding quick_rooms_open_def
  by (auto dest!: set_update_cases)

lemma open_lookup:
  "quick_rooms_open s \<Longrightarrow> map_of (rooms s) k = Some r \<Longrightarrow> isQuickMatch r \<Longrightarrow>
   password r = Undefined"
  unfolding quick_rooms_open_def by (auto dest!: map_of_SomeD)

lemma stripped_strip [simp]:
  "stripped (RoomCreated (strip r))" "stripped (PlayerJoined (strip r))"
  "stripped (RoomUpdated (strip r))" "stripped (PlayerLeft (strip r) u)"
  by (simp_all add: stripped_def strip_def)

lemma stripped_other [simp]:
  "stripped (GameStarted g)" "stripped (GameStateUpdated g)" "stripped (GameEnded h)"
  "stripped (Emote a b)" "stripped (Error m)" "stripped LeaveRoom"
  by (simp_all add: stripped_def)

lemma createRoom_open:
  assumes "quick_rooms_open s" and "createRoom s c maxP pw u draws = Some (s1, out)"
  shows "quick_rooms_open s1 \<and> (\<forall>p \<in> set out. stripped (snd p))"
  using assms
  by (auto simp: createRoom_def Let_def split: option.splits intro!: open_update)

lemma joinRoom_open:
  assumes "quick_rooms_open s" and "joinRoom s c roomId pw u = (s1, out)"
  shows "quick_rooms_open s1 \<and> (\<forall>p \<in> set out. stripped (snd p))"
  using assms
  by (auto simp: joinRoom_def Let_def split: option.splits if_splits
           intro!: open_update dest: open_lookup)

lemma toggleReady_open:
  assumes "quick_rooms_open s" and "toggleReady s c roomId = (s1, out)"
  shows "quick_rooms_open s1 \<and> (\<forall>p \<in> set out. stripped (snd p))"
  using assms
  by (auto simp: toggleReady_def Let_def split: option.splits if_splits
           intro!: open_update dest: open_lookup)

lemma startGame_open:
  assumes "quick_rooms_open s" and "startGame s c roomId = (s1, out)"
  shows "quick_rooms_open s1 \<and> (\<forall>p \<in> set out. stripped (snd p))"
  using assms
  by (auto simp: startGame_def Let_def split: option.splits if_splits
           intro!: open_update dest: open_lookup)

lemma sendEmote_open:
  assumes "quick_rooms_open s" and "sendEmote s c roomId e = (s1, out)"
  shows "quick_rooms_open s1 \<and> (\<forall>p \<in> set out. stripped (snd p))"
  using assms
  by (auto simp: sendEmote_def split: option.splits)

lemma gameAction_open:
  assumes "quick_rooms_open s" and "gameAction s c roomId action d = Some (s1, out)"
  shows "quick_rooms_open s1 \<and> (\<forall>p \<in> set out. stripped (snd p))"
  using assms
  by (auto simp: gameAction_def Let_def split: option.splits if_splits sum.splits
           intro!: open_update dest: open_lookup)

lemma find_Some_set: "find P xs = Some x \<Longrightarrow> x \<in> set xs \<and> P x"
  by (induction xs) (auto split: if_splits)

lemma quickMatch_open:
  assumes "quick_rooms_open s" and "findOrCreateQuickMatch s c u draws = Some (s1, out)"
  shows "quick_rooms_open s1 \<and> (\<forall>p \<in> set out. stripped (snd p))"
proof (cases "find (\<lambda>(roomId, r). isQuickMatch r \<and> \<not> started r \<and>
                    int (length (players_r r)) < maxPlayers r) (rooms s)")
  case None
  then show ?thesis using assms
    by (auto simp: findOrCreateQuickMatch_def Let_def stripped_def split: option.splits
             intro!: open_update)
next
  case (Some kr)
  obtain k r where kr: "kr = (k, r)" by (cases kr)
  from find_Some_set[OF Some] have mem: "(k, r) \<in> set (rooms s)" and q: "isQuickMatch r"
    by (auto simp: kr)
  then have pw: "password r = Undefined"
    using assms(1) unfolding quick_rooms_open_def by auto
  show ?thesis using assms Some pw q
    by (auto simp: findOrCreateQuickMatch_def Let_def kr stripped_def split: if_splits
             intro!: open_update)
qed

lemma leave_one_props:
  "leave_one c r i = (r1, del) \<Longrightarrow> isQuickMatch r1 = isQuickMatch r \<and> password r1 = password r"
  by (auto simp: leave_one_def Let_def split: if_splits)

lemma leave_loop_open:
  assumes "\<forall>(k, r) \<in> set rs. isQuickMatch r \<longrightarrow> password r = Undefined"
    and "leave_loop c rs = (rs1, out)"
  shows "(\<forall>(k, r) \<in> set rs1. isQuickMatch r \<longrightarrow> password r = Undefined) \<and>
         (\<forall>p \<in> set out. stripped (snd p))"
  using assms
proof (induction rs arbitrary: rs1 out)
  case Nil
  then show ?case by simp
next
  case (Cons a rs)
  obtain k r where a: "a = (k, r)" by (cases a)
  obtain rest1 out0 where rec: "leave_loop c rs = (rest1, out0)" by (cases "leave_loop c rs")
  have IH: "(\<forall>(k, r) \<in> set rest1. isQuickMatch r \<longrightarrow> password r = Undefined) \<and>
         (\<forall>p \<in> set out0. stripped (snd p))"
    using Cons.IH[OF _ rec] Cons.prems(1) by simp
  have r: "isQuickMatch r \<longrightarrow> password r = Undefined" using Cons.prems(1) by (simp add: a)
  show ?case
  proof (cases "findIndex (\<lambda>p. id_l p = c) (players_r r)")
    case None
    then show ?thesis using Cons.prems(2) IH r by (auto simp: a rec)
  next
    case (Some i)
    obtain r1 del where lo: "leave_one c r i = (r1, del)" by (cases "leave_one c r i")
    from leave_one_props[OF lo] r have r1: "isQuickMatch r1 \<longrightarrow> password r1 = Undefined" by simp
    show ?thesis using Cons.prems(2) IH r1 by (auto simp: a rec Some lo Let_def split: if_splits)
  qed
qed

lemma leaveRoom_open:
  assumes "quick_rooms_open s" and "leaveRoom s c = (s1, out)"
  shows "quick_rooms_open s1 \<and> (\<forall>p \<in> set out. stripped (snd p))"
proof -
  obtain rs1 out1 where l: "leave_loop c (rooms s) = (rs1, out1)" by (cases "leave_loop c (rooms s)")
  from leave_loop_open[OF _ l] assms(1)
  have "(\<forall>(k, r) \<in> set rs1. isQuickMatch r \<longrightarrow> password r = Undefined) \<and>
         (\<forall>p \<in> set out1. stripped (snd p))"
    by (simp add: quick_rooms_open_def)
  then show ?thesis using assms(2) by (auto simp: leaveRoom_def l quick_rooms_open_def)
qed

lemma handle_open:
  assumes "quick_rooms_open s" and "handle s req = Some (s1, out)"
  shows "quick_rooms_open s1 \<and> (\<forall>p \<in> set out. stripped (snd p))"
proof (cases req)
  case (QuickMatch c u draws)
  then show ?thesis using assms quickMatch_open by simp
next
  case (CreateRoom c maxP pw u draws)
  then show ?thesis using assms createRoom_open by simp
next
  case (JoinRoom c roomId pw u)
  then show ?thesis using assms joinRoom_open by simp
next
  case (ToggleReady c roomId)
  then show ?thesis using assms toggleReady_open by simp
next
  case (StartGame c roomId)
  then show ?thesis using assms startGame_open by simp
next
  case (GameAction c roomId action d)
  then show ?thesis using assms gameAction_open by simp
next
  case (SendEmote c roomId e)
  then show ?thesis using assms sendEmote_open by simp
next
  case (LeaveRoomReq c)
  then show ?thesis using assms leaveRoom_open by simp
next
  case (Disconnect c)
  then show ?thesis using assms by (auto simp: disconnect_def)
qed

lemma serve_open:
  assumes "quick_rooms_open s" and "serve s reqs = Some (s1, out)"
  shows "quick_rooms_open s1 \<and> (\<forall>p \<in> set out. stripped (snd p))"
  using assms
proof (induction reqs arbitrary: s s1 out)
  case Nil
  then show ?case by simp
next
  case (Cons req reqs)
  from Cons.prems(2) obtain sa oa sb ob where
    h: "handle s req = Some (sa, oa)" and r: "serve sa reqs = Some (sb, ob)"
    and e: "s1 = sb" "out = oa @ ob"
    by (auto split: option.splits)
  from handle_open[OF Cons.prems(1) h] have a: "quick_rooms_open sa" "\<forall>p \<in> set oa. stripped (snd p)"
    by simp_all
  from Cons.IH[OF a(1) r] show ?case using a(2) e by auto
qed

lemma initial_open: "quick_rooms_open initial"
  by (simp add: quick_rooms_open_def initial_def)

subsection \<open>The sample servers\<close>

text \<open>The sample servers are reached from the empty server by the first requests of \<open>session\<close>.\<close>

lemma lobby1_reached:
  "serve initial (take 1 session) =
     Some (lobby1, [(ToSocket ''s1'', RoomCreated (strip room1))])"
  by code_simp

lemma lobby2_reached:
  "serve initial (take 2 session) =
     Some (lobby2,
       [(ToSocket ''s1'', RoomCreated (strip room1)),
        (ToRoom ''123456'',
         PlayerJoined (strip (room1\<lparr>players_r := [playerA, playerB]\<rparr>)))])"
  by code_simp

section \<open>Claims about the game engine\<close>

text \<open>
  C1. The specification says that an action kind other than \<open>roll\<close>, \<open>shoot\<close> and
  \<open>emote\<close> is ignored entirely: no log entry, no turn advance, and the unchanged
  state is returned with \<open>gameEnded = false\<close>. The switch has no default case and the
  code after it runs for every action kind: in a fresh two-player game an unknown
  action moves \<open>currentPlayer\<close> from 0 to 1.
\<close>

theorem unknown_action_counterexample:
  "processGameAction (initializeGameState roster2) ''pass'' noData =
     Inr \<lparr>gameState_r = (initializeGameState roster2)\<lparr>currentPlayer := 1\<rparr>,
          gameEnded = False, history_r = None\<rparr> \<and>
   (initializeGameState roster2)\<lparr>currentPlayer := 1\<rparr> \<noteq> initializeGameState roster2"
  by code_simp

text \<open>
  C1, as the code has it. For an action kind other than \<open>roll\<close>, \<open>shoot\<close> and
  \<open>emote\<close>, on a state with a player, \<open>processGameAction\<close> returns a state that
  differs from the given one in \<open>currentPlayer\<close> at most (no log entry, no change to a
  player, a cell or \<open>lastRoll\<close>), and the code after the switch still runs:
  \<open>gameEnded\<close> is true, with a history record and \<open>currentPlayer\<close> unchanged, exactly
  when one player is not eliminated; when it is false and some player is not
  eliminated, \<open>currentPlayer\<close> is the first index after the given one, cyclically,
  whose player is not eliminated; when every player is eliminated, \<open>gameEnded\<close> is
  false and \<open>currentPlayer\<close> moves on by one index.
\<close>

theorem unknown_action_runs_end_of_action:
  assumes "action \<noteq> ''roll''" and "action \<noteq> ''shoot''" and "action \<noteq> ''emote''"
    and "players gs \<noteq> []"
  shows "\<exists>r. processGameAction gs action d = Inr r \<and>
           gameState_r r = gs\<lparr>currentPlayer := currentPlayer (gameState_r r)\<rparr> \<and>
           (gameEnded r \<longleftrightarrow> length (activePlayers gs) = 1) \<and>
           (gameEnded r \<longrightarrow> currentPlayer (gameState_r r) = currentPlayer gs \<and>
              history_r r = Some (buildHistory gs (activePlayers gs ! 0))) \<and>
           (\<not> gameEnded r \<and> activePlayers gs \<noteq> [] \<longrightarrow>
              (\<exists>k < length (players gs).
                 currentPlayer (gameState_r r) =
                   (currentPlayer gs + 1 + k) mod length (players gs) \<and>
                 \<not> eliminated (players gs ! currentPlayer (gameState_r r)) \<and>
                 (\<forall>j < k. eliminated (players gs !
                      ((currentPlayer gs + 1 + j) mod length (players gs)))))) \<and>
           (activePlayers gs = [] \<longrightarrow>
              \<not> gameEnded r \<and>
              currentPlayer (gameState_r r) = (currentPlayer gs + 1) mod length (players gs))"
proof -
  have sw: "switch_action gs action d = Inr gs"
    using assms(1-3) by (simp add: switch_action_def)
  from end_of_action_total[OF assms(4)] obtain r where e: "end_of_action gs = Inr r"
    and fr: "gameState_r r = gs\<lparr>currentPlayer := currentPlayer (gameState_r r)\<rparr>"
    by blast
  have pga: "processGameAction gs action d = Inr r"
    by (simp add: processGameAction_def sw e)
  note E = end_of_action_ended[OF e]
  have en: "gameEnded r \<longleftrightarrow> length (activePlayers gs) = 1" by (rule E(1))
  have hist: "currentPlayer (gameState_r r) = currentPlayer gs \<and>
      history_r r = Some (buildHistory gs (activePlayers gs ! 0))" if "gameEnded r"
    using e that by (auto simp: end_of_action_def split: if_splits)
  have st: "currentPlayer (gameState_r r) = nextPlayer (players gs) (currentPlayer gs)"
    if "\<not> gameEnded r"
    using E(5)[OF that] by simp
  have adv: "\<exists>k < length (players gs).
                 currentPlayer (gameState_r r) =
                   (currentPlayer gs + 1 + k) mod length (players gs) \<and>
                 \<not> eliminated (players gs ! currentPlayer (gameState_r r)) \<and>
                 (\<forall>j < k. eliminated (players gs !
                      ((currentPlayer gs + 1 + j) mod length (players gs))))"
    if ne: "\<not> gameEnded r" and some: "activePlayers gs \<noteq> []"
  proof -
    have ex: "\<exists>p \<in> set (players gs). \<not> eliminated p"
      using some by (auto simp: activePlayers_def filter_empty_conv)
    show ?thesis using nextPlayer_first[OF ex, of "currentPlayer gs"]
      unfolding st[OF ne] by blast
  qed
  have none: "\<not> gameEnded r \<and>
      currentPlayer (gameState_r r) = (currentPlayer gs + 1) mod length (players gs)"
    if z: "activePlayers gs = []"
  proof -
    have ne: "\<not> gameEnded r" using en z by simp
    have "\<forall>p \<in> set (players gs). eliminated p"
      using z by (auto simp: activePlayers_def filter_empty_conv)
    then have "nextPlayer (players gs) (currentPlayer gs) =
        (currentPlayer gs + 1) mod length (players gs)"
      by (rule nextPlayer_all_eliminated)
    then show ?thesis using ne st[OF ne] by simp
  qed
  show ?thesis using pga fr en hist adv none by (intro exI[of _ r]) blast
qed

theorem unknown_action_witness:
  "''pass'' \<noteq> ''roll'' \<and> ''pass'' \<noteq> ''shoot'' \<and> ''pass'' \<noteq> ''emote'' \<and>
   players (initializeGameState roster2) \<noteq> [] \<and>
   (\<exists>r. processGameAction (initializeGameState roster2) ''pass'' noData = Inr r \<and>
        gameLog (gameState_r r) = [] \<and> \<not> gameEnded r \<and>
        (\<exists>k < 2. currentPlayer (gameState_r r) = (0 + 1 + k) mod 2 \<and>
           \<not> eliminated (players (initializeGameState roster2) ! currentPlayer (gameState_r r))))"
proof -
  let ?G = "initializeGameState roster2"
  have h: "''pass'' \<noteq> ''roll''" "''pass'' \<noteq> ''shoot''" "''pass'' \<noteq> ''emote''"
    "players ?G \<noteq> []"
    by (simp_all add: initializeGameState_def roster2_def)
  have a: "length (activePlayers ?G) = 2" by code_simp
  have n: "length (players ?G) = 2" by code_simp
  have c0: "currentPlayer ?G = 0" by code_simp
  have c: "gameLog ?G = []" by (simp add: initializeGameState_def)
  from unknown_action_runs_end_of_action[OF h, of noData]
  obtain r where r: "processGameAction ?G ''pass'' noData = Inr r"
    "gameState_r r = ?G\<lparr>currentPlayer := currentPlayer (gameState_r r)\<rparr>"
    "gameEnded r \<longleftrightarrow> length (activePlayers ?G) = 1"
    "\<not> gameEnded r \<and> activePlayers ?G \<noteq> [] \<longrightarrow>
       (\<exists>k < length (players ?G).
          currentPlayer (gameState_r r) = (currentPlayer ?G + 1 + k) mod length (players ?G) \<and>
          \<not> eliminated (players ?G ! currentPlayer (gameState_r r)) \<and>
          (\<forall>j < k. eliminated (players ?G ! ((currentPlayer ?G + 1 + j) mod length (players ?G)))))"
    by blast
  have lg: "gameLog (gameState_r r) = []" by (subst r(2)) (simp add: c)
  have ne: "\<not> gameEnded r" using r(3) a by simp
  have some: "activePlayers ?G \<noteq> []" using a by auto
  from r(4) ne some have "\<exists>k < 2. currentPlayer (gameState_r r) = (0 + 1 + k) mod 2 \<and>
           \<not> eliminated (players ?G ! currentPlayer (gameState_r r))"
    unfolding n c0 by blast
  then show ?thesis using h r(1) lg ne by blast
qed

text \<open>
  C3. The claim says that the history record returned with \<open>gameEnded = true\<close> lists,
  for each elimination, the shooting player's username as \<open>eliminator\<close>. The code
  reads \<open>log.shooter\<close> of the \<open>eliminate\<close> entries, and only \<open>shoot\<close> entries have
  that property. In the state \<open>duel\<close>, A shoots B's only active cell: the game ends
  with winner A, the \<open>shoot\<close> entry before the \<open>eliminate\<close> entry names the shooter A,
  and the history record's only elimination has \<open>eliminator\<close> undefined.
\<close>

theorem history_eliminator_undefined:
  "case processGameAction duel ''shoot'' shootB of
     Inl e \<Rightarrow> False
   | Inr r \<Rightarrow>
       gameEnded r \<and>
       map_option winner (history_r r) = Some ''A'' \<and>
       shooter (last (butlast (gameLog (gameState_r r)))) = Some ''A'' \<and>
       map_option eliminations_h (history_r r) =
         Some [\<lparr>eliminator = None, eliminated_h = Some ''B''\<rparr>]"
  by code_simp

text \<open>
  C4. The claim says that in every reachable state, the freshly initialized one
  included, a player's \<open>eliminated\<close> flag equals "all cells of the player are
  inactive". In a freshly initialized two-player game the first player has no active
  cell and is not eliminated.
\<close>

theorem eliminated_flag_counterexample:
  "\<not> eliminated (players (initializeGameState roster2) ! 0) \<and>
   allInactive (heap (initializeGameState roster2)) (players (initializeGameState roster2) ! 0)"
  by code_simp

text \<open>
  C4, as the code has it. \<open>initializeGameState\<close> sets every player's \<open>eliminated\<close> flag
  to false. \<open>processGameAction\<close> writes the flag of one player only, the target of a
  shot that passes the roll test and the ammunition test, and sets it to "every cell of
  the target is inactive" in the state it returns; every other flag is left as it was.
\<close>

theorem eliminated_flag_written_by_hit_only:
  "(\<forall>p \<in> set (players (initializeGameState ps)). \<not> eliminated p) \<and>
   (processGameAction gs action d = Inr r \<longrightarrow>
      (\<forall>i < length (players gs).
         eliminated (players (gameState_r r) ! i) =
           (if action = ''shoot'' \<and> shotLands gs d \<and> i = nat (targetPlayer d)
            then allInactive (heap (gameState_r r)) (players (gameState_r r) ! i)
            else eliminated (players gs ! i))))"
proof (intro conjI impI allI ballI)
  fix p assume "p \<in> set (players (initializeGameState ps))"
  then show "\<not> eliminated p" by (rule initial_not_eliminated)
next
  fix i assume h: "processGameAction gs action d = Inr r" and i: "i < length (players gs)"
  from h obtain gs1 where sw: "switch_action gs action d = Inr gs1"
    and e: "end_of_action gs1 = Inr r"
    by (rule processGameAction_Inr)
  have "players (gameState_r r) = players gs1" "heap (gameState_r r) = heap gs1"
    using e by (auto simp: end_of_action_def split: if_splits)
  then show "eliminated (players (gameState_r r) ! i) =
           (if action = ''shoot'' \<and> shotLands gs d \<and> i = nat (targetPlayer d)
            then allInactive (heap (gameState_r r)) (players (gameState_r r) ! i)
            else eliminated (players gs ! i))"
    using switch_eliminated(2)[OF sw i] by simp
qed

theorem eliminated_flag_witness:
  "\<exists>r. processGameAction duel ''shoot'' shootB = Inr r \<and>
        shotLands duel shootB \<and> nat (targetPlayer shootB) = 1 \<and>
        eliminated (players (gameState_r r) ! 1) \<and>
        allInactive (heap (gameState_r r)) (players (gameState_r r) ! 1) \<and>
        \<not> eliminated (players (gameState_r r) ! 0) \<and> \<not> eliminated (players duel ! 0)"
proof -
  have ev: "case processGameAction duel ''shoot'' shootB of
              Inl e \<Rightarrow> False
            | Inr r \<Rightarrow> allInactive (heap (gameState_r r)) (players (gameState_r r) ! 1)"
    by code_simp
  then obtain r where h: "processGameAction duel ''shoot'' shootB = Inr r"
    and ai: "allInactive (heap (gameState_r r)) (players (gameState_r r) ! 1)"
    by (auto split: sum.splits)
  have sl: "shotLands duel shootB" by code_simp
  have t: "nat (targetPlayer shootB) = 1" by code_simp
  have len: "length (players duel) = 2" by code_simp
  have a0: "\<not> eliminated (players duel ! 0)" by code_simp
  from eliminated_flag_written_by_hit_only[of roster2 duel "''shoot''" shootB r] h
  have all: "\<forall>i < length (players duel).
         eliminated (players (gameState_r r) ! i) =
           (if ''shoot'' = ''shoot'' \<and> shotLands duel shootB \<and> i = nat (targetPlayer shootB)
            then allInactive (heap (gameState_r r)) (players (gameState_r r) ! i)
            else eliminated (players duel ! i))"
    by blast
  have "eliminated (players (gameState_r r) ! 1)"
    using all[rule_format, of 1] sl t ai len by simp
  moreover have "\<not> eliminated (players (gameState_r r) ! 0)"
    using all[rule_format, of 0] sl t a0 len by simp
  ultimately show ?thesis using h sl t ai a0 by blast
qed

text \<open>
  C7. The claim says that in every case in which \<open>gameEnded\<close> is false,
  \<open>currentPlayer\<close> is advanced to the next index whose player is not eliminated. The
  \<open>gameAction\<close> handler keeps passing actions to \<open>processGameAction\<close> after a game has
  ended, and the loop's second test, \<open>players.some(p => !p.eliminated)\<close>, lets it stop
  on an eliminated player when nobody is left. After A has shot B out of the game in
  \<open>duel\<close>, one player is left and it is still A's turn; A then shoots its own last
  cell: nobody is left, \<open>gameEnded\<close> is false, and \<open>currentPlayer\<close> is B, who is
  eliminated.
\<close>

theorem turn_advance_counterexample:
  "case play duel [(''shoot'', shootB)] of
     Inl e \<Rightarrow> False
   | Inr g \<Rightarrow>
       length (activePlayers g) = 1 \<and> currentPlayer g = 0 \<and>
       (case processGameAction g ''shoot'' shootSelf of
          Inl e \<Rightarrow> False
        | Inr r \<Rightarrow>
            \<not> gameEnded r \<and> activePlayers (gameState_r r) = [] \<and>
            currentPlayer (gameState_r r) = 1 \<and>
            eliminated (players (gameState_r r) ! currentPlayer (gameState_r r)))"
  by code_simp

text \<open>
  C7, as the code has it. Whenever \<open>processGameAction\<close> returns, \<open>gameEnded\<close> is true
  if and only if exactly one player of the returned state is not eliminated; when
  \<open>gameEnded\<close> is true, \<open>currentPlayer\<close> is the one given; when it is false and at
  least two players remain, \<open>currentPlayer\<close> is the first index after the given one,
  cyclically, whose player is not eliminated. An action eliminates one player at most,
  so from a state with at least two players left every case in which \<open>gameEnded\<close> is
  false is a case with at least two players left. When no player remains,
  \<open>gameEnded\<close> is false and \<open>currentPlayer\<close> moves on by one index, to an eliminated
  player.
\<close>

theorem turn_advance:
  assumes "processGameAction gs action d = Inr r"
  shows "(gameEnded r \<longleftrightarrow> length (activePlayers (gameState_r r)) = 1) \<and>
         (gameEnded r \<longrightarrow> currentPlayer (gameState_r r) = currentPlayer gs) \<and>
         (\<not> gameEnded r \<and> 2 \<le> length (activePlayers (gameState_r r)) \<longrightarrow>
            (\<exists>k < length (players (gameState_r r)).
               currentPlayer (gameState_r r) =
                 (currentPlayer gs + 1 + k) mod length (players (gameState_r r)) \<and>
               \<not> eliminated (players (gameState_r r) ! currentPlayer (gameState_r r)) \<and>
               (\<forall>j < k. eliminated (players (gameState_r r) !
                    ((currentPlayer gs + 1 + j) mod length (players (gameState_r r))))))) \<and>
         (\<not> gameEnded r \<and> 2 \<le> length (activePlayers gs) \<longrightarrow>
            2 \<le> length (activePlayers (gameState_r r))) \<and>
         (activePlayers (gameState_r r) = [] \<longrightarrow>
            \<not> gameEnded r \<and>
            currentPlayer (gameState_r r) =
              (currentPlayer gs + 1) mod length (players (gameState_r r)) \<and>
            eliminated (players (gameState_r r) ! currentPlayer (gameState_r r)))"
proof -
  from assms obtain gs1 where sw: "switch_action gs action d = Inr gs1"
    and e: "end_of_action gs1 = Inr r"
    by (rule processGameAction_Inr)
  have cp: "currentPlayer gs1 = currentPlayer gs" using sw by (rule switch_currentPlayer)
  note E = end_of_action_ended[OF e]
  have a: "gameEnded r \<longleftrightarrow> length (activePlayers (gameState_r r)) = 1"
    using E(1,2) by simp
  have b: "currentPlayer (gameState_r r) = currentPlayer gs" if "gameEnded r"
    using E(4)[OF that] cp by simp
  have c: "\<exists>k < length (players (gameState_r r)).
               currentPlayer (gameState_r r) =
                 (currentPlayer gs + 1 + k) mod length (players (gameState_r r)) \<and>
               \<not> eliminated (players (gameState_r r) ! currentPlayer (gameState_r r)) \<and>
               (\<forall>j < k. eliminated (players (gameState_r r) !
                    ((currentPlayer gs + 1 + j) mod length (players (gameState_r r)))))"
    if ne: "\<not> gameEnded r" and two: "2 \<le> length (activePlayers (gameState_r r))"
  proof -
    have "activePlayers gs1 \<noteq> []" using two E(2) by auto
    then have ex: "\<exists>p \<in> set (players gs1). \<not> eliminated p"
      by (auto simp: activePlayers_def filter_empty_conv)
    have st: "currentPlayer (gameState_r r) = nextPlayer (players gs1) (currentPlayer gs)"
      using E(5)[OF ne] cp by simp
    show ?thesis using nextPlayer_first[OF ex, of "currentPlayer gs"]
      unfolding E(3) st by blast
  qed
  have d: "2 \<le> length (activePlayers (gameState_r r))"
    if "\<not> gameEnded r" "2 \<le> length (activePlayers gs)"
    using active_players_drop_by_one[OF assms] that a by linarith
  have f: "\<not> gameEnded r \<and>
      currentPlayer (gameState_r r) =
        (currentPlayer gs + 1) mod length (players (gameState_r r)) \<and>
      eliminated (players (gameState_r r) ! currentPlayer (gameState_r r))"
    if z: "activePlayers (gameState_r r) = []"
  proof -
    have ne: "\<not> gameEnded r" using a z by simp
    have "activePlayers gs1 = []" using z E(2) by simp
    then have all: "\<forall>p \<in> set (players gs1). eliminated p"
      by (auto simp: activePlayers_def filter_empty_conv)
    then have np: "nextPlayer (players gs1) (currentPlayer gs) =
        (currentPlayer gs + 1) mod length (players gs1)"
      by (rule nextPlayer_all_eliminated)
    have st: "currentPlayer (gameState_r r) = nextPlayer (players gs1) (currentPlayer gs)"
      using E(5)[OF ne] cp by simp
    have "players gs1 \<noteq> []"
      using e ne by (auto simp: end_of_action_def split: if_splits)
    then have "nextPlayer (players gs1) (currentPlayer gs) < length (players gs1)"
      by (rule nextPlayer_lt)
    then have "eliminated (players gs1 ! nextPlayer (players gs1) (currentPlayer gs))"
      using all by simp
    then show ?thesis using ne st np by (simp add: E(3))
  qed
  show ?thesis using a b c d f by blast
qed

theorem turn_advance_witness:
  "\<exists>r. processGameAction trio ''shoot'' shootB = Inr r \<and>
        \<not> gameEnded r \<and> length (activePlayers (gameState_r r)) = 2 \<and>
        length (players (gameState_r r)) = 3 \<and>
        eliminated (players (gameState_r r) ! 1) \<and>
        (\<exists>k < 3. currentPlayer (gameState_r r) = (currentPlayer trio + 1 + k) mod 3 \<and>
               \<not> eliminated (players (gameState_r r) ! currentPlayer (gameState_r r)) \<and>
               (\<forall>j < k. eliminated (players (gameState_r r) ! ((currentPlayer trio + 1 + j) mod 3))))"
proof -
  have ev: "case processGameAction trio ''shoot'' shootB of
              Inl e \<Rightarrow> False
            | Inr r \<Rightarrow> length (activePlayers (gameState_r r)) = 2 \<and>
                length (players (gameState_r r)) = 3 \<and>
                eliminated (players (gameState_r r) ! 1)"
    by code_simp
  then obtain r where h: "processGameAction trio ''shoot'' shootB = Inr r"
    and two: "length (activePlayers (gameState_r r)) = 2"
    and three: "length (players (gameState_r r)) = 3"
    and b: "eliminated (players (gameState_r r) ! 1)"
    by (auto split: sum.splits)
  note T = turn_advance[OF h, unfolded three]
  have ne: "\<not> gameEnded r" using T two by simp
  then show ?thesis using T h two three b by auto
qed

text \<open>
  C5. The claim says that a shot that passes the roll test and the ammunition test resets
  the target's cell and decrements the bullets of the actor's cell at the same index by
  one. When the actor targets itself the two cells are one slot: the slot gets the new
  empty cell, and the decrement goes to the object that the slot no longer holds. In
  the state \<open>duel\<close>, A has five bullets in its first cell and shoots its own first cell:
  the cell has no bullets afterwards, not four.
\<close>

theorem self_shot_counterexample:
  "case processGameAction duel ''shoot'' shootSelf of
     Inl e \<Rightarrow> False
   | Inr r \<Rightarrow> shotLands duel shootSelf \<and> currentPlayer duel = 0 \<and>
       bullets (cellAt duel 0 0) = 5 \<and> bullets (cellAt (gameState_r r) 0 0) = 0"
  by code_simp

text \<open>
  C5, as the code has it. In a state of a running game, for a target player and a target
  cell within range, \<open>shoot\<close> returns. When the roll test or the ammunition test fails, the
  returned state differs from the given one in \<open>currentPlayer\<close> at most. When both pass,
  the target's cell at \<open>targetCell\<close> is the empty cell; if the target is another player,
  the actor's cell at that index has one bullet less; no other cell changes; the actor's
  \<open>shotsFired\<close> and the target's \<open>timesTargeted\<close> are one higher; and the log is extended
  by a \<open>shoot\<close> entry, followed by an \<open>eliminate\<close> entry when the target is eliminated.
\<close>

theorem shoot_semantics:
  assumes ip: "in_play gs"
    and tp: "0 \<le> targetPlayer d" "targetPlayer d < int (length (players gs))"
    and tc: "0 \<le> targetCell d" "targetCell d < int (length (players gs))"
    and cpd: "cp = currentPlayer gs" and td: "t = nat (targetPlayer d)"
    and kd: "k = nat (targetCell d)"
  shows "\<exists>r. processGameAction gs ''shoot'' d = Inr r \<and>
     (\<not> shotLands gs d \<longrightarrow>
        gameState_r r = gs\<lparr>currentPlayer := currentPlayer (gameState_r r)\<rparr>) \<and>
     (shotLands gs d \<longrightarrow>
        cellAt (gameState_r r) t k = freshCell \<and>
        (t \<noteq> cp \<longrightarrow> cellAt (gameState_r r) cp k =
           (cellAt gs cp k)\<lparr>bullets := bullets (cellAt gs cp k) - 1\<rparr>) \<and>
        (\<forall>p < length (players gs). \<forall>j < length (players gs).
           (p, j) \<noteq> (t, k) \<longrightarrow> (p, j) \<noteq> (cp, k) \<longrightarrow>
           cellAt (gameState_r r) p j = cellAt gs p j) \<and>
        shotsFired (stats (players (gameState_r r) ! cp)) =
          shotsFired (stats (players gs ! cp)) + 1 \<and>
        timesTargeted (stats (players (gameState_r r) ! t)) =
          timesTargeted (stats (players gs ! t)) + 1 \<and>
        gameLog (gameState_r r) = gameLog gs @
          (entry ''shoot'')\<lparr>shooter := Some (username (players gs ! cp)),
             target := Some (username (players gs ! t)),
             cell_l := Some (targetCell d + 1)\<rparr> #
          (if eliminated (players (gameState_r r) ! t)
           then [(entry ''eliminate'')\<lparr>player := Some (username (players gs ! t))\<rparr>]
           else []))"
proof -
  have wf: "wf_state gs" using ip by (rule in_play_wf)
  let ?N = "length (players gs)"
  have cp: "cp < ?N" unfolding cpd using wf by (rule wf_currentPlayer)
  have t: "t < ?N" unfolding td using tp by simp
  have k: "k < ?N" unfolding kd using tc by simp
  have ik: "int k = targetCell d" unfolding kd using tc by simp
  have ne: "players gs \<noteq> []" using cp by auto
  define g1 where "g1 = (if shotLands gs d
     then shoot_hit gs cp (slot gs cp k) t (players gs ! t) (int k) else gs)"
  have sw: "switch_action gs ''shoot'' d = Inr g1"
    unfolding g1_def cpd td kd using case_shoot_wf[OF wf tp tc] tc
    by (simp add: switch_action_def)
  have "length (players g1) = ?N"
    using t cp by (simp add: g1_def shoot_hit_eliminated(1))
  then have "players g1 \<noteq> []" using ne by (metis length_0_conv)
  from end_of_action_total[OF this] obtain r where r: "end_of_action g1 = Inr r"
    and fr: "gameState_r r = g1\<lparr>currentPlayer := currentPlayer (gameState_r r)\<rparr>"
    by blast
  have pga: "processGameAction gs ''shoot'' d = Inr r"
    by (simp add: processGameAction_def sw r)
  have pl: "players (gameState_r r) = players g1" by (subst fr) simp
  have lg: "gameLog (gameState_r r) = gameLog g1" by (subst fr) simp
  have ca: "cellAt (gameState_r r) p j = cellAt g1 p j" for p j by (subst fr) simp
  show ?thesis
  proof (cases "shotLands gs d")
    case False
    then have "g1 = gs" by (simp add: g1_def)
    then show ?thesis using False pga fr by (intro exI[of _ r]) simp
  next
    case True
    then have g1: "g1 = shoot_hit gs cp (slot gs cp k) t (players gs ! t) (int k)"
      by (simp add: g1_def)
    have live: "0 < bullets (cellAt gs cp k)"
      using True by (simp add: shotLands_def cpd kd)
    note C = shoot_hit_cellAt[OF wf cp k t live, folded g1]
    have c1: "cellAt (gameState_r r) t k = freshCell"
      using C[OF t k] by (simp add: ca)
    have c2: "cellAt (gameState_r r) cp k =
           (cellAt gs cp k)\<lparr>bullets := bullets (cellAt gs cp k) - 1\<rparr>" if "t \<noteq> cp"
      using C[OF cp k] that by (auto simp: ca)
    have c3: "\<forall>p < ?N. \<forall>j < ?N. (p, j) \<noteq> (t, k) \<longrightarrow> (p, j) \<noteq> (cp, k) \<longrightarrow>
           cellAt (gameState_r r) p j = cellAt gs p j"
      using C by (auto simp: ca)
    have s1: "shotsFired (stats (players (gameState_r r) ! cp)) =
          shotsFired (stats (players gs ! cp)) + 1"
      unfolding pl g1 using t cp by (rule shoot_hit_stats(1))
    have s2: "timesTargeted (stats (players (gameState_r r) ! t)) =
          timesTargeted (stats (players gs ! t)) + 1"
      unfolding pl g1 using t cp by (rule shoot_hit_stats(2))
    have l1: "gameLog (gameState_r r) = gameLog gs @
          (entry ''shoot'')\<lparr>shooter := Some (username (players gs ! cp)),
             target := Some (username (players gs ! t)),
             cell_l := Some (targetCell d + 1)\<rparr> #
          (if eliminated (players (gameState_r r) ! t)
           then [(entry ''eliminate'')\<lparr>player := Some (username (players gs ! t))\<rparr>]
           else [])"
      unfolding pl lg g1 ik[symmetric] using t cp by (rule shoot_hit_gameLog)
    show ?thesis
      using True pga c1 c2 c3 s1 s2 l1 by (intro exI[of _ r]) blast
  qed
qed

theorem shoot_semantics_witness:
  "in_play duel \<and> 0 \<le> targetPlayer shootB \<and> targetPlayer shootB < int (length (players duel)) \<and>
   0 \<le> targetCell shootB \<and> targetCell shootB < int (length (players duel)) \<and>
   shotLands duel shootB \<and>
   (\<exists>r. processGameAction duel ''shoot'' shootB = Inr r \<and>
        cellAt (gameState_r r) 1 0 = freshCell \<and>
        cellAt (gameState_r r) 0 0 = \<lparr>stage = 6, isActive = True, bullets = 4\<rparr> \<and>
        shotsFired (stats (players (gameState_r r) ! 0)) = 1 \<and>
        timesTargeted (stats (players (gameState_r r) ! 1)) = 1)"
proof -
  have tp: "0 \<le> targetPlayer shootB" "targetPlayer shootB < int (length (players duel))"
    by code_simp+
  have tc: "0 \<le> targetCell shootB" "targetCell shootB < int (length (players duel))"
    by code_simp+
  have cp: "0 = currentPlayer duel" by code_simp
  have t: "1 = nat (targetPlayer shootB)" by code_simp
  have k: "0 = nat (targetCell shootB)" by code_simp
  have sl: "shotLands duel shootB" by code_simp
  have c: "cellAt duel 0 0 = \<lparr>stage = 6, isActive = True, bullets = 5\<rparr>" by code_simp
  have s: "shotsFired (stats (players duel ! 0)) = 0"
    "timesTargeted (stats (players duel ! 1)) = 0" by code_simp+
  from shoot_semantics[OF in_play_duel tp tc cp t k] sl
  obtain r where r: "processGameAction duel ''shoot'' shootB = Inr r"
    "cellAt (gameState_r r) 1 0 = freshCell"
    "cellAt (gameState_r r) 0 0 = (cellAt duel 0 0)\<lparr>bullets := bullets (cellAt duel 0 0) - 1\<rparr>"
    "shotsFired (stats (players (gameState_r r) ! 0)) = shotsFired (stats (players duel ! 0)) + 1"
    "timesTargeted (stats (players (gameState_r r) ! 1)) = timesTargeted (stats (players duel ! 1)) + 1"
    by auto
  show ?thesis using in_play_duel tp tc sl r c s by auto
qed

text \<open>
  C6. In a state of a running game, \<open>roll\<close> with a value \<open>v\<close> between 1 and the number
  of players returns, with \<open>lastRoll = v\<close>. If the current player has \<open>firstMove\<close> set and
  \<open>v\<close> is not 1, a \<open>firstMove\<close> entry is logged, no cell changes and \<open>firstMove\<close> stays
  set. Otherwise \<open>firstMove\<close> is clear afterwards, only the current player's cell
  \<open>v - 1\<close> can change, and that cell \<open>c\<close> and the log follow the if-chain: inactive, it
  becomes \<open>{stage: 1, isActive: true, bullets: 0}\<close> with an \<open>activate\<close> entry; active
  below stage 6, its stage goes up by one, and on reaching 6 it gets five bullets with a
  \<open>maxLevel\<close> entry; at stage 6 without bullets it gets five bullets with a \<open>reload\<close>
  entry; at stage 6 with bullets nothing changes and nothing is logged. The last
  conjunct says that these cases cover every active cell.
\<close>

theorem roll_semantics:
  assumes ip: "in_play gs"
    and v1: "1 \<le> v" and vN: "v \<le> int (length (players gs))"
    and dv: "value_d d = v"
    and cpd: "cp = currentPlayer gs" and curd: "cur = players gs ! cp"
    and idf: "i = nat (v - 1)" and cd: "c = cellAt gs cp i"
  shows "\<exists>r. processGameAction gs ''roll'' d = Inr r \<and>
     lastRoll (gameState_r r) = Some v \<and>
     (firstMove cur \<and> v \<noteq> 1 \<longrightarrow>
        gameLog (gameState_r r) = gameLog gs @
          [(entry ''firstMove'')\<lparr>player := Some (username cur),
             message := Some (username cur @ '' needs to roll a 1 to start!'')\<rparr>] \<and>
        firstMove (players (gameState_r r) ! cp) \<and>
        (\<forall>p < length (players gs). \<forall>j < length (players gs).
           cellAt (gameState_r r) p j = cellAt gs p j)) \<and>
     (\<not> (firstMove cur \<and> v \<noteq> 1) \<longrightarrow>
        \<not> firstMove (players (gameState_r r) ! cp) \<and>
        (\<forall>p < length (players gs). \<forall>j < length (players gs).
           (p, j) \<noteq> (cp, i) \<longrightarrow> cellAt (gameState_r r) p j = cellAt gs p j) \<and>
        (\<not> isActive c \<longrightarrow>
           cellAt (gameState_r r) cp i = \<lparr>stage = 1, isActive = True, bullets = 0\<rparr> \<and>
           gameLog (gameState_r r) = gameLog gs @
             [(entry ''activate'')\<lparr>player := Some (username cur), cell_l := Some v\<rparr>]) \<and>
        (isActive c \<and> stage c < 6 \<and> stage c + 1 = 6 \<longrightarrow>
           cellAt (gameState_r r) cp i = c\<lparr>stage := 6, bullets := 5\<rparr> \<and>
           gameLog (gameState_r r) = gameLog gs @
             [(entry ''maxLevel'')\<lparr>player := Some (username cur), cell_l := Some v\<rparr>]) \<and>
        (isActive c \<and> stage c < 6 \<and> stage c + 1 \<noteq> 6 \<longrightarrow>
           cellAt (gameState_r r) cp i = c\<lparr>stage := stage c + 1\<rparr> \<and>
           gameLog (gameState_r r) = gameLog gs) \<and>
        (isActive c \<and> stage c = 6 \<and> bullets c = 0 \<longrightarrow>
           cellAt (gameState_r r) cp i = c\<lparr>bullets := 5\<rparr> \<and>
           gameLog (gameState_r r) = gameLog gs @
             [(entry ''reload'')\<lparr>player := Some (username cur), cell_l := Some v\<rparr>]) \<and>
        (isActive c \<and> stage c = 6 \<and> 0 < bullets c \<longrightarrow>
           cellAt (gameState_r r) cp i = c \<and>
           gameLog (gameState_r r) = gameLog gs) \<and>
        (isActive c \<longrightarrow> stage c < 6 \<or> stage c = 6 \<and> 0 \<le> bullets c))"
proof -
  have wf: "wf_state gs" using ip by (rule in_play_wf)
  let ?N = "length (players gs)"
  have cp: "cp < ?N" unfolding cpd using wf by (rule wf_currentPlayer)
  have i: "i < ?N" unfolding idf using v1 vN by simp
  have ii: "int i = v - 1" unfolding idf using v1 by simp
  have ok: "cell_ok c" unfolding cd using wf cp i by (rule wf_cell_ok)
  have ne: "players gs \<noteq> []" using cp by auto
  have cr: "case_roll gs d = Inr
    (if firstMove cur \<and> v \<noteq> 1 then
       gs\<lparr>lastRoll := Some v,
          gameLog := gameLog gs @
            [(entry ''firstMove'')\<lparr>player := Some (username cur),
               message := Some (username cur @ '' needs to roll a 1 to start!'')\<rparr>]\<rparr>
     else
       roll_cell (gs\<lparr>lastRoll := Some v\<rparr>) cp (cur\<lparr>firstMove := False\<rparr>) (int i)
         (slot (gs\<lparr>lastRoll := Some v\<rparr>) cp i))"
    unfolding curd idf cpd by (rule case_roll_wf[OF wf, of d, unfolded dv, OF v1 vN])
  show ?thesis
  proof (cases "firstMove cur \<and> v \<noteq> 1")
    case True
    define g1 where "g1 = gs\<lparr>lastRoll := Some v,
          gameLog := gameLog gs @
            [(entry ''firstMove'')\<lparr>player := Some (username cur),
               message := Some (username cur @ '' needs to roll a 1 to start!'')\<rparr>]\<rparr>"
    have sw: "switch_action gs ''roll'' d = Inr g1"
      unfolding switch_action_def cr g1_def if_P[OF True] by simp
    have "players g1 \<noteq> []" using ne by (simp add: g1_def)
    from end_of_action_frame[OF this] obtain r where r: "end_of_action g1 = Inr r"
      "players (gameState_r r) = players g1" "heap (gameState_r r) = heap g1"
      "gameLog (gameState_r r) = gameLog g1" "lastRoll (gameState_r r) = lastRoll g1"
      by blast
    have pga: "processGameAction gs ''roll'' d = Inr r"
      by (simp add: processGameAction_def sw r(1))
    have cells: "cellAt (gameState_r r) p j = cellAt gs p j" for p j
      by (simp add: cellAt_def slot_def r(2,3) g1_def)
    have fm: "firstMove (players (gameState_r r) ! cp)"
      using True by (simp add: r(2) g1_def curd)
    show ?thesis
      using True pga cells fm by (intro exI[of _ r]) (simp add: r(4,5) g1_def)
  next
    case False
    define g1 where "g1 = roll_cell (gs\<lparr>lastRoll := Some v\<rparr>) cp (cur\<lparr>firstMove := False\<rparr>)
         (int i) (slot (gs\<lparr>lastRoll := Some v\<rparr>) cp i)"
    have sw: "switch_action gs ''roll'' d = Inr g1"
      unfolding switch_action_def cr g1_def if_not_P[OF False] by simp
    have "length (players g1) = length (players gs)"
      by (simp add: g1_def roll_cell_length)
    then have "players g1 \<noteq> []" using ne by (metis length_0_conv)
    from end_of_action_frame[OF this] obtain r where r: "end_of_action g1 = Inr r"
      "players (gameState_r r) = players g1" "heap (gameState_r r) = heap g1"
      "gameLog (gameState_r r) = gameLog g1" "lastRoll (gameState_r r) = lastRoll g1"
      by blast
    have pga: "processGameAction gs ''roll'' d = Inr r"
      by (simp add: processGameAction_def sw r(1))
    have lr: "lastRoll (gameState_r r) = Some v"
      by (simp add: r(5) g1_def roll_cell_lastRoll)
    have fm: "\<not> firstMove (players (gameState_r r) ! cp)"
      using cp by (simp add: r(2) g1_def roll_cell_firstMove)
    have cells: "cellAt (gameState_r r) p j =
       (if (p, j) = (cp, i) then
        (if \<not> isActive c then \<lparr>stage = 1, isActive = True, bullets = 0\<rparr>
         else if stage c < 6 then
           (if stage c + 1 = 6 then c\<lparr>stage := stage c + 1, bullets := 5\<rparr>
            else c\<lparr>stage := stage c + 1\<rparr>)
         else if bullets c = 0 then c\<lparr>bullets := 5\<rparr>
         else c)
        else cellAt gs p j)" if "p < ?N" "j < ?N" for p j
    proof -
      have "cellAt (gameState_r r) p j = cellAt g1 p j"
        by (rule cellAt_cong) (simp_all add: r(2,3))
      also have "\<dots> = (if (p, j) = (cp, i) then
        (let c = cellAt (gs\<lparr>lastRoll := Some v\<rparr>) cp i in
         if \<not> isActive c then \<lparr>stage = 1, isActive = True, bullets = 0\<rparr>
         else if stage c < 6 then
           (if stage c + 1 = 6 then c\<lparr>stage := stage c + 1, bullets := 5\<rparr>
            else c\<lparr>stage := stage c + 1\<rparr>)
         else if bullets c = 0 then c\<lparr>bullets := 5\<rparr>
         else c)
        else cellAt (gs\<lparr>lastRoll := Some v\<rparr>) p j)"
        unfolding g1_def
        by (rule roll_cell_cellAt) (use wf cp i that in \<open>simp_all add: curd\<close>)
      finally show ?thesis by (simp add: Let_def cd)
    qed
    have log: "gameLog (gameState_r r) = gameLog gs @
       (if \<not> isActive c then
          [(entry ''activate'')\<lparr>player := Some (username cur), cell_l := Some v\<rparr>]
        else if stage c < 6 then
          (if stage c + 1 = 6 then
             [(entry ''maxLevel'')\<lparr>player := Some (username cur), cell_l := Some v\<rparr>]
           else [])
        else if bullets c = 0 then
          [(entry ''reload'')\<lparr>player := Some (username cur), cell_l := Some v\<rparr>]
        else [])"
      by (simp add: r(4) g1_def roll_cell_gameLog Let_def ii cd cellAt_def)
    have rng: "stage c \<le> 6" "0 \<le> bullets c" using ok by (simp_all add: cell_ok_def)
    have others: "\<forall>p < ?N. \<forall>j < ?N. (p, j) \<noteq> (cp, i) \<longrightarrow>
        cellAt (gameState_r r) p j = cellAt gs p j"
      using cells by auto
    have this_cell: "cellAt (gameState_r r) cp i =
        (if \<not> isActive c then \<lparr>stage = 1, isActive = True, bullets = 0\<rparr>
         else if stage c < 6 then
           (if stage c + 1 = 6 then c\<lparr>stage := stage c + 1, bullets := 5\<rparr>
            else c\<lparr>stage := stage c + 1\<rparr>)
         else if bullets c = 0 then c\<lparr>bullets := 5\<rparr>
         else c)"
      using cells[OF cp i] by simp
    show ?thesis
      apply (intro exI[of _ r] conjI impI)
      subgoal by (rule pga)
      subgoal by (rule lr)
      subgoal using False by simp
      subgoal using False by simp
      subgoal using False by simp
      subgoal by (rule fm)
      subgoal by (rule others)
      subgoal by (simp add: this_cell)
      subgoal by (simp add: log)
      subgoal by (simp add: this_cell)
      subgoal by (simp add: log)
      subgoal by (simp add: this_cell)
      subgoal by (simp add: log)
      subgoal by (simp add: this_cell)
      subgoal by (simp add: log)
      subgoal by (simp add: this_cell)
      subgoal by (simp add: log)
      subgoal using rng by auto
      done
  qed
qed

theorem roll_semantics_witness:
  "in_play (initializeGameState roster2) \<and> (1::int) \<le> 1 \<and>
   1 \<le> int (length (players (initializeGameState roster2))) \<and>
   (\<exists>r. processGameAction (initializeGameState roster2) ''roll'' (snd rollOne) = Inr r \<and>
        lastRoll (gameState_r r) = Some 1 \<and>
        \<not> firstMove (players (gameState_r r) ! 0) \<and>
        cellAt (gameState_r r) 0 0 = \<lparr>stage = 1, isActive = True, bullets = 0\<rparr> \<and>
        cellAt (gameState_r r) 1 1 = cellAt (initializeGameState roster2) 1 1 \<and>
        gameLog (gameState_r r) =
          [(entry ''activate'')\<lparr>player := Some ''A'', cell_l := Some 1\<rparr>])"
proof -
  let ?G = "initializeGameState roster2"
  have n: "1 \<le> int (length (players ?G))" "length (players ?G) = 2" by code_simp+
  have dv: "value_d (snd rollOne) = 1" by code_simp
  have cp: "0 = currentPlayer ?G" by code_simp
  have i: "0 = nat (1 - 1)" by simp
  have c: "\<not> isActive (cellAt ?G 0 0)" by code_simp
  have u: "username (players ?G ! 0) = ''A''" by code_simp
  have l: "gameLog ?G = []" by code_simp
  from roll_semantics[OF in_play_initial2 order_refl n(1) dv cp refl i refl] c
  obtain r where r: "processGameAction ?G ''roll'' (snd rollOne) = Inr r"
    "lastRoll (gameState_r r) = Some 1"
    "\<not> firstMove (players (gameState_r r) ! 0)"
    "\<forall>p < length (players ?G). \<forall>j < length (players ?G).
           (p, j) \<noteq> (0, 0) \<longrightarrow> cellAt (gameState_r r) p j = cellAt ?G p j"
    "cellAt (gameState_r r) 0 0 = \<lparr>stage = 1, isActive = True, bullets = 0\<rparr>"
    "gameLog (gameState_r r) = gameLog ?G @
             [(entry ''activate'')\<lparr>player := Some (username (players ?G ! 0)), cell_l := Some 1\<rparr>]"
    by auto
  have "cellAt (gameState_r r) 1 1 = cellAt ?G 1 1"
    using r(4)[rule_format, of 1 1] n(2) by simp
  then show ?thesis using in_play_initial2 n r u l by auto
qed

section \<open>Claims about rooms and handlers\<close>

text \<open>
  C2. The claim says that a transport-level disconnect has the same effect on the room
  directory and on the connection's room as a \<open>leaveRoom\<close> event. The \<open>disconnect\<close>
  handler does not run the \<open>leaveRoom\<close> listener; it sends a \<open>leaveRoom\<close> event to the
  client that has just gone. In \<open>lobby2\<close>, where A leads a room that B has joined,
  \<open>disconnect\<close> of A leaves the directory as it is and broadcasts nothing, while
  \<open>leaveRoom\<close> of A removes A, makes B the leader and broadcasts \<open>playerLeft\<close>.
\<close>

theorem disconnect_does_not_leave:
  "disconnect lobby2 ''s1'' = (lobby2, [(ToSocket ''s1'', LeaveRoom)]) \<and>
   leaveRoom lobby2 ''s1'' =
     (\<lparr>rooms = [(''123456'', room1\<lparr>leader := ''s2'',
                      players_r := [playerB\<lparr>isLeader := True\<rparr>]\<rparr>)]\<rparr>,
      [(ToRoom ''123456'',
        PlayerLeft (strip (room1\<lparr>leader := ''s2'',
                      players_r := [playerB\<lparr>isLeader := True\<rparr>]\<rparr>)) ''A'')]) \<and>
   fst (disconnect lobby2 ''s1'') \<noteq> fst (leaveRoom lobby2 ''s1'')"
  by code_simp

text \<open>
  C8. \<open>joinRoom\<close> answers a request for an unknown room with the single push
  \<open>error 'Room not found'\<close> to the requester; for a known room it answers, in this
  order of precedence, a set password that differs from the supplied one with
  \<open>'Incorrect password'\<close>, a roster at or over \<open>maxPlayers\<close> with \<open>'Room is full'\<close>, and a
  started game with \<open>'Game already in progress'\<close>, each time leaving the server state
  as it was. Otherwise the room's roster gets one more player, with the requester's id
  and name, not leader and not ready; nothing else of the room and no other room
  changes; and the room, without its password, is broadcast to the room as
  \<open>playerJoined\<close>.
\<close>

theorem joinRoom_outcomes:
  "(map_of (rooms s) roomId = None \<longrightarrow>
      joinRoom s c roomId pw u = (s, [(ToSocket c, Error ''Room not found'')])) \<and>
   (\<forall>r. map_of (rooms s) roomId = Some r \<longrightarrow>
      (truthy (password r) \<and> password r \<noteq> pw \<longrightarrow>
         joinRoom s c roomId pw u = (s, [(ToSocket c, Error ''Incorrect password'')])) \<and>
      (\<not> (truthy (password r) \<and> password r \<noteq> pw) \<and>
       maxPlayers r \<le> int (length (players_r r)) \<longrightarrow>
         joinRoom s c roomId pw u = (s, [(ToSocket c, Error ''Room is full'')])) \<and>
      (\<not> (truthy (password r) \<and> password r \<noteq> pw) \<and>
       int (length (players_r r)) < maxPlayers r \<and> started r \<longrightarrow>
         joinRoom s c roomId pw u = (s, [(ToSocket c, Error ''Game already in progress'')])) \<and>
      (\<not> (truthy (password r) \<and> password r \<noteq> pw) \<and>
       int (length (players_r r)) < maxPlayers r \<and> \<not> started r \<longrightarrow>
         (\<exists>s1 r1 p.
            joinRoom s c roomId pw u = (s1, [(ToRoom roomId, PlayerJoined (strip r1))]) \<and>
            map_of (rooms s1) roomId = Some r1 \<and>
            (\<forall>k. k \<noteq> roomId \<longrightarrow> map_of (rooms s1) k = map_of (rooms s) k) \<and>
            r1 = r\<lparr>players_r := players_r r @ [p]\<rparr> \<and>
            id_l p = c \<and> username_l p = u \<and> \<not> isLeader p \<and> \<not> ready p)))"
  by (auto simp: joinRoom_def Let_def map_of_rooms_update)

theorem joinRoom_outcomes_witness:
  "map_of (rooms lobby1) ''123456'' = Some room1 \<and>
   \<not> (truthy (password room1) \<and> password room1 \<noteq> Str ''secret'') \<and>
   int (length (players_r room1)) < maxPlayers room1 \<and> \<not> started room1 \<and>
   joinRoom lobby1 ''s2'' ''123456'' (Str ''secret'') ''B'' =
     (lobby2, [(ToRoom ''123456'', PlayerJoined (strip (room1\<lparr>players_r := [playerA, playerB]\<rparr>)))]) \<and>
   (\<exists>s1 r1 p.
      joinRoom lobby1 ''s2'' ''123456'' (Str ''secret'') ''B'' =
        (s1, [(ToRoom ''123456'', PlayerJoined (strip r1))]) \<and>
      r1 = room1\<lparr>players_r := players_r room1 @ [p]\<rparr> \<and> \<not> isLeader p \<and> \<not> ready p) \<and>
   joinRoom lobby1 ''s2'' ''123456'' (Str ''wrong'') ''B'' =
     (lobby1, [(ToSocket ''s2'', Error ''Incorrect password'')]) \<and>
   joinRoom lobby1 ''s2'' ''000000'' (Str ''secret'') ''B'' =
     (lobby1, [(ToSocket ''s2'', Error ''Room not found'')])"
proof -
  have m: "map_of (rooms lobby1) ''123456'' = Some room1" by code_simp
  have n: "map_of (rooms lobby1) ''000000'' = None" by code_simp
  have h: "\<not> (truthy (password room1) \<and> password room1 \<noteq> Str ''secret'')"
    "int (length (players_r room1)) < maxPlayers room1" "\<not> started room1"
    by code_simp+
  have w: "truthy (password room1) \<and> password room1 \<noteq> Str ''wrong''" by code_simp
  have e: "joinRoom lobby1 ''s2'' ''123456'' (Str ''secret'') ''B'' =
     (lobby2, [(ToRoom ''123456'', PlayerJoined (strip (room1\<lparr>players_r := [playerA, playerB]\<rparr>)))])"
    by code_simp
  note J = joinRoom_outcomes[of lobby1 "''123456''" "''s2''" "Str ''secret''" "''B''"]
  note W = joinRoom_outcomes[of lobby1 "''123456''" "''s2''" "Str ''wrong''" "''B''"]
  note N = joinRoom_outcomes[of lobby1 "''000000''" "''s2''" "Str ''secret''" "''B''"]
  have ex: "\<exists>s1 r1 p.
      joinRoom lobby1 ''s2'' ''123456'' (Str ''secret'') ''B'' =
        (s1, [(ToRoom ''123456'', PlayerJoined (strip r1))]) \<and>
      r1 = room1\<lparr>players_r := players_r room1 @ [p]\<rparr> \<and> \<not> isLeader p \<and> \<not> ready p"
    using J m h by blast
  have wr: "joinRoom lobby1 ''s2'' ''123456'' (Str ''wrong'') ''B'' =
     (lobby1, [(ToSocket ''s2'', Error ''Incorrect password'')])"
    using W m w by blast
  have nf: "joinRoom lobby1 ''s2'' ''000000'' (Str ''secret'') ''B'' =
     (lobby1, [(ToSocket ''s2'', Error ''Room not found'')])"
    using N n by blast
  show ?thesis using m h e ex wr nf by blast
qed

text \<open>
  C9. Whatever requests the server has handled since it started with no rooms, every
  event it has sent that carries a Room carries it without a password property. This
  covers the \<open>playerJoined\<close> broadcast of a quick-match join, which sends the room
  object as it is: a quick-match room never has a password property
  (\<open>quick_rooms_open\<close>).
\<close>

theorem no_password_in_payloads:
  assumes "serve initial reqs = Some (s, out)"
  shows "(\<forall>p \<in> set out. stripped (snd p)) \<and> quick_rooms_open s"
  using serve_open[OF initial_open assms] by simp

theorem no_password_in_payloads_witness:
  "\<exists>s out. serve initial session = Some (s, out) \<and> length out = 7 \<and>
      fst (out ! 3) = ToRoom ''654321'' \<and>
      map_option isQuickMatch (room_of (snd (out ! 3))) = Some True \<and>
      (\<forall>p \<in> set out. stripped (snd p)) \<and> quick_rooms_open s"
proof -
  have "case serve initial session of
          None \<Rightarrow> False
        | Some (s, out) \<Rightarrow> length out = 7 \<and> fst (out ! 3) = ToRoom ''654321'' \<and>
            map_option isQuickMatch (room_of (snd (out ! 3))) = Some True"
    by code_simp
  then obtain s out where h: "serve initial session = Some (s, out)"
    and l: "length out = 7" "fst (out ! 3) = ToRoom ''654321''"
      "map_option isQuickMatch (room_of (snd (out ! 3))) = Some True"
    by (auto split: option.splits)
  from no_password_in_payloads[OF h] show ?thesis using h l by blast
qed

text \<open>
  C10. Whenever \<open>generateRoomId\<close> has an unused id among its draws, \<open>createRoom\<close> makes a
  room whose only player is the creator, leader and ready. A \<open>startGame\<close> request of the
  creator for that room then starts the game at once, for the roster of one. A player
  added by \<open>joinRoom\<close> is not ready: after such a join the same \<open>startGame\<close> request does
  nothing.
\<close>

theorem creator_starts_alone:
  assumes "x \<in> set draws" and "map_of (rooms s) x = None"
  shows "\<exists>roomId s1 r.
     createRoom s c maxP pw u draws = Some (s1, [(ToSocket c, RoomCreated (strip r))]) \<and>
     map_of (rooms s) roomId = None \<and> map_of (rooms s1) roomId = Some r \<and>
     leader r = c \<and> \<not> started r \<and>
     players_r r = [\<lparr>id_l = c, username_l = u, ready = True, isLeader = True,
                     color_l = PLAYER_COLORS ! 0\<rparr>] \<and>
     (\<exists>s2 r2.
        startGame s1 c roomId =
          (s2, [(ToRoom roomId, GameStarted (initializeGameState (players_r r)))]) \<and>
        map_of (rooms s2) roomId = Some r2 \<and> started r2 \<and>
        gameState r2 = Some (initializeGameState (players_r r))) \<and>
     (\<forall>c2 pw2 u2.
        \<not> (truthy (password r) \<and> password r \<noteq> pw2) \<and> 1 < maxPlayers r \<longrightarrow>
        (\<exists>s3 r3 p.
           joinRoom s1 c2 roomId pw2 u2 = (s3, [(ToRoom roomId, PlayerJoined (strip r3))]) \<and>
           map_of (rooms s3) roomId = Some r3 \<and>
           players_r r3 = players_r r @ [p] \<and> \<not> ready p \<and>
           startGame s3 c roomId = (s3, [])))"
proof -
  from generateRoomId_returns[OF assms] obtain roomId
    where g: "generateRoomId (rooms s) draws = Some roomId" and fresh: "map_of (rooms s) roomId = None"
    by blast
  define r where "r = \<lparr>id_r = roomId, leader = c,
                    password = (if truthy pw then pw else Null),
                    maxPlayers = maxP, isQuickMatch = False,
                    players_r = [\<lparr>id_l = c, username_l = u, ready = True,
                                  isLeader = True, color_l = PLAYER_COLORS ! 0\<rparr>],
                    gameState = None, started = False\<rparr>"
  define s1 where "s1 = s\<lparr>rooms := AList.update roomId r (rooms s)\<rparr>"
  have cr: "createRoom s c maxP pw u draws = Some (s1, [(ToSocket c, RoomCreated (strip r))])"
    by (simp add: createRoom_def g Let_def r_def s1_def)
  have m1: "map_of (rooms s1) roomId = Some r" by (simp add: s1_def map_of_rooms_update)
  have f: "leader r = c" "\<not> started r"
    "players_r r = [\<lparr>id_l = c, username_l = u, ready = True, isLeader = True,
                     color_l = PLAYER_COLORS ! 0\<rparr>]"
    by (simp_all add: r_def)
  have st: "\<exists>s2 r2.
        startGame s1 c roomId =
          (s2, [(ToRoom roomId, GameStarted (initializeGameState (players_r r)))]) \<and>
        map_of (rooms s2) roomId = Some r2 \<and> started r2 \<and>
        gameState r2 = Some (initializeGameState (players_r r))"
    by (simp add: startGame_def m1 f Let_def map_of_rooms_update)
  have jn: "\<exists>s3 r3 p.
           joinRoom s1 c2 roomId pw2 u2 = (s3, [(ToRoom roomId, PlayerJoined (strip r3))]) \<and>
           map_of (rooms s3) roomId = Some r3 \<and>
           players_r r3 = players_r r @ [p] \<and> \<not> ready p \<and>
           startGame s3 c roomId = (s3, [])"
    if "\<not> (truthy (password r) \<and> password r \<noteq> pw2) \<and> 1 < maxPlayers r" for c2 pw2 u2
    using that
    by (simp add: joinRoom_def m1 f Let_def map_of_rooms_update startGame_def)
  show ?thesis using cr fresh m1 f st jn by blast
qed

theorem creator_starts_alone_witness:
  "''123456'' \<in> set [''123456''] \<and> map_of (rooms initial) ''123456'' = None \<and>
   createRoom initial ''s1'' 4 (Str ''secret'') ''A'' [''123456''] =
     Some (lobby1, [(ToSocket ''s1'', RoomCreated (strip room1))]) \<and>
   (\<exists>roomId s1 r.
     createRoom initial ''s1'' 4 (Str ''secret'') ''A'' [''123456''] =
       Some (s1, [(ToSocket ''s1'', RoomCreated (strip r))]) \<and>
     map_of (rooms s1) roomId = Some r \<and>
     (\<exists>s2 r2.
        startGame s1 ''s1'' roomId =
          (s2, [(ToRoom roomId, GameStarted (initializeGameState (players_r r)))]) \<and>
        map_of (rooms s2) roomId = Some r2 \<and> started r2))"
proof -
  have a: "''123456'' \<in> set [''123456'']" by simp
  have b: "map_of (rooms initial) ''123456'' = None" by code_simp
  have c: "createRoom initial ''s1'' 4 (Str ''secret'') ''A'' [''123456''] =
     Some (lobby1, [(ToSocket ''s1'', RoomCreated (strip room1))])"
    by code_simp
  from creator_starts_alone[OF a b, of "''s1''" 4 "Str ''secret''" "''A''"]
  have "\<exists>roomId s1 r.
     createRoom initial ''s1'' 4 (Str ''secret'') ''A'' [''123456''] =
       Some (s1, [(ToSocket ''s1'', RoomCreated (strip r))]) \<and>
     map_of (rooms s1) roomId = Some r \<and>
     (\<exists>s2 r2.
        startGame s1 ''s1'' roomId =
          (s2, [(ToRoom roomId, GameStarted (initializeGameState (players_r r)))]) \<and>
        map_of (rooms s2) roomId = Some r2 \<and> started r2)"
    by blast
  then show ?thesis using a b c by blast
qed

end
